theory Spec2Isabelle
  imports Main "HOL-Library.Multiset" "HOL-Library.Monad_Syntax"
begin

section \<open>The leftist-heap priority queue of \<open>priority_queue.hpp\<close>\<close>

text \<open>
  The class \<open>sjtu::priority_queue<T, Compare>\<close> is a pointer structure that is updated in
  place, and several of its operations compare object identities (\<open>this == &other\<close>).
  The embedding therefore keeps an explicit store:
  \<^item> tree nodes live in a node store, a partial map from addresses to \<open>Node\<close> records;
    \<open>Node*\<close> is \<open>nat option\<close> with \<open>None\<close> for \<open>nullptr\<close>;
  \<^item> queue objects live in a second partial map from object identities to \<open>pq\<close> records,
    so that \<open>this\<close> and \<open>&other\<close> can be compared;
  \<^item> \<open>new Node(val)\<close> takes the address \<open>next_node\<close> and advances it; it can throw
    (\<open>std::bad_alloc\<close>, or the copy constructor of \<open>T\<close>): the field \<open>new_throws\<close> of the state
    says for every allocation, counted by \<open>next_node\<close>, whether it throws; a throwing
    allocation is the error \<open>alloc_failure\<close>, it stores no node and it is counted too;
    \<open>delete\<close> removes the address from the store;
  \<^item> a throwing comparator is a function into \<open>bool option\<close>, \<open>None\<close> standing for a
    raised exception; every operation returns its result together with the store as it
    is at that moment, so that what an exception leaves behind is visible;
  \<^item> dereferencing an address that is not live is undefined behaviour in C++ and is the
    error value \<open>invalid_access\<close> here;
  \<^item> the recursions of \<open>merge\<close>, \<open>clear\<close> and \<open>copy\<close> follow pointers of the store and
    need not end on a cyclic store: they are partial functions into \<open>option\<close>, \<open>None\<close>
    standing for a call that never returns.
  The counter \<open>sz\<close> (\<open>size_t\<close>) and the field \<open>npl\<close> (\<open>int\<close>) are modelled by \<open>nat\<close> and
  \<open>int\<close>: \<open>sz\<close> counts live nodes and \<open>npl\<close> is bounded by the logarithm of that count
  (lemma \<open>leftist_npl_bound\<close>), so neither can wrap.
\<close>

subsection \<open>Data model\<close>

datatype error = container_is_empty | comparator_failure | alloc_failure | invalid_access

record 'a Node =
  data :: 'a
  left :: "nat option"
  right :: "nat option"
  npl :: int

type_synonym 'a store = "nat \<Rightarrow> 'a Node option"

type_synonym 'a compare = "'a \<Rightarrow> 'a \<Rightarrow> bool option"

record 'a pq =
  root :: "nat option"
  sz :: nat
  comp :: "'a compare"

record 'a state =
  nodes :: "'a store"
  next_node :: nat
  new_throws :: "nat \<Rightarrow> bool"
  queues :: "nat \<Rightarrow> 'a pq option"

subsection \<open>Private helpers (lines 27--73)\<close>

text \<open>\<open>Node(const T& val)\<close>: a leaf with \<open>npl = 1\<close>.\<close>

definition new_Node :: "'a \<Rightarrow> 'a Node" where
  "new_Node val = \<lparr>data = val, left = None, right = None, npl = 1\<rparr>"

text \<open>\<open>getNPL\<close>: \<open>node ? node->npl : 0\<close>.\<close>

definition getNPL :: "'a store \<Rightarrow> nat option \<Rightarrow> error + int" where
  "getNPL h node =
     (case node of None \<Rightarrow> Inr 0
      | Some a \<Rightarrow> (case h a of None \<Rightarrow> Inl invalid_access | Some n \<Rightarrow> Inr (npl n)))"

text \<open>\<open>updateNPL\<close>: \<open>if (node) node->npl = getNPL(node->right) + 1\<close>.\<close>

definition updateNPL :: "'a store \<Rightarrow> nat option \<Rightarrow> error + 'a store" where
  "updateNPL h node =
     (case node of None \<Rightarrow> Inr h
      | Some a \<Rightarrow>
         (case h a of None \<Rightarrow> Inl invalid_access
          | Some n \<Rightarrow>
             (case getNPL h (right n) of Inl e \<Rightarrow> Inl e
              | Inr k \<Rightarrow> Inr (h(a \<mapsto> n\<lparr>npl := k + 1\<rparr>)))))"

text \<open>
  \<open>merge(Node* h1, Node* h2)\<close>. The comparison comes first and may throw; the winner \<open>w\<close>
  is \<open>h1\<close> after the conditional \<open>std::swap(h1, h2)\<close>, the loser \<open>l\<close> is \<open>h2\<close>. The three
  writes (\<open>h1->right = ...\<close>, the swap of the children, \<open>updateNPL\<close>) come after the
  recursive call has returned.
\<close>

partial_function (option) merge ::
  "'a compare \<Rightarrow> 'a store \<Rightarrow> nat option \<Rightarrow> nat option \<Rightarrow> ((error + nat option) \<times> 'a store) option"
where
  "merge c h h1 h2 =
     (case h1 of None \<Rightarrow> Some (Inr h2, h)
      | Some a1 \<Rightarrow>
     (case h2 of None \<Rightarrow> Some (Inr h1, h)
      | Some a2 \<Rightarrow>
     (case h a1 of None \<Rightarrow> Some (Inl invalid_access, h)
      | Some n1 \<Rightarrow>
     (case h a2 of None \<Rightarrow> Some (Inl invalid_access, h)
      | Some n2 \<Rightarrow>
     (case c (data n1) (data n2) of None \<Rightarrow> Some (Inl comparator_failure, h)
      | Some lt \<Rightarrow>
         let w = (if lt then a2 else a1);
             l = (if lt then a1 else a2);
             nw = (if lt then n2 else n1)
         in do {
           (res, h') \<leftarrow> merge c h (right nw) (Some l);
           (case res of Inl e \<Rightarrow> Some (Inl e, h')
            | Inr m \<Rightarrow>
           (case h' w of None \<Rightarrow> Some (Inl invalid_access, h')
            | Some n \<Rightarrow>
               let hr = h'(w \<mapsto> n\<lparr>right := m\<rparr>) in
           (case getNPL hr (left n) of Inl e \<Rightarrow> Some (Inl e, hr)
            | Inr kl \<Rightarrow>
           (case getNPL hr m of Inl e \<Rightarrow> Some (Inl e, hr)
            | Inr kr \<Rightarrow>
               let hs = (if kl < kr then hr(w \<mapsto> n\<lparr>left := m, right := left n\<rparr>) else hr) in
           (case updateNPL hs (Some w) of Inl e \<Rightarrow> Some (Inl e, hs)
            | Inr hu \<Rightarrow> Some (Inr (Some w), hu))))))
         })))))"

declare merge.simps [code]

text \<open>\<open>delete node\<close> on an address that is not live is undefined behaviour.\<close>

definition delete_node :: "'a store \<Rightarrow> nat \<Rightarrow> error + 'a store" where
  "delete_node h a = (case h a of None \<Rightarrow> Inl invalid_access | Some n \<Rightarrow> Inr (h(a := None)))"

text \<open>\<open>clear(Node* node)\<close>: both subtrees first, then the node itself.\<close>

partial_function (option) clear ::
  "'a store \<Rightarrow> nat option \<Rightarrow> ((error + unit) \<times> 'a store) option"
where
  "clear h node =
     (case node of None \<Rightarrow> Some (Inr (), h)
      | Some a \<Rightarrow>
     (case h a of None \<Rightarrow> Some (Inl invalid_access, h)
      | Some n \<Rightarrow> do {
          (r1, h1) \<leftarrow> clear h (left n);
          (case r1 of Inl e \<Rightarrow> Some (Inl e, h1)
           | Inr u1 \<Rightarrow>
          (case h1 a of None \<Rightarrow> Some (Inl invalid_access, h1)
           | Some n' \<Rightarrow> do {
               (r2, h2) \<leftarrow> clear h1 (right n');
               (case r2 of Inl e \<Rightarrow> Some (Inl e, h2)
                | Inr u2 \<Rightarrow>
               (case delete_node h2 a of Inl e \<Rightarrow> Some (Inl e, h2)
                | Inr h3 \<Rightarrow> Some (Inr (), h3)))
             }))
        }))"

text \<open>
  \<open>copy(Node* node)\<close>: the new node is allocated before the children are copied, and
  \<open>npl\<close> is copied last. The state is the node store with the allocation counter; \<open>thr\<close>
  says which allocations throw. \<open>copy\<close> has no handler: when an allocation throws, the
  nodes copied so far stay in the store.
\<close>

partial_function (option) copy ::
  "(nat \<Rightarrow> bool) \<Rightarrow> 'a store \<times> nat \<Rightarrow> nat option
     \<Rightarrow> ((error + nat option) \<times> 'a store \<times> nat) option"
where
  "copy thr hn node =
     (case node of None \<Rightarrow> Some (Inr None, hn)
      | Some a \<Rightarrow>
     (case fst hn a of None \<Rightarrow> Some (Inl invalid_access, hn)
      | Some n \<Rightarrow>
         let b = snd hn;
             h0 = (fst hn)(b \<mapsto> new_Node (data n))
         in
     if thr b then Some (Inl alloc_failure, (fst hn, b + 1))
     else
     (case h0 a of None \<Rightarrow> Some (Inl invalid_access, (h0, b + 1))
      | Some na \<Rightarrow> do {
          (rl, h1, k1) \<leftarrow> copy thr (h0, b + 1) (left na);
          (case rl of Inl e \<Rightarrow> Some (Inl e, h1, k1)
           | Inr cl \<Rightarrow>
          (case (h1 b, h1 a) of
             (Some nb, Some nc) \<Rightarrow> do {
               (rr, h2, k2) \<leftarrow> copy thr (h1(b \<mapsto> nb\<lparr>left := cl\<rparr>), k1) (right nc);
               (case rr of Inl e \<Rightarrow> Some (Inl e, h2, k2)
                | Inr cr \<Rightarrow>
               (case (h2 b, h2 a) of
                  (Some nd, Some ne) \<Rightarrow>
                     Some (Inr (Some b), h2(b \<mapsto> nd\<lparr>right := cr, npl := npl ne\<rparr>), k2)
                | _ \<Rightarrow> Some (Inl invalid_access, h2, k2)))
             }
           | _ \<Rightarrow> Some (Inl invalid_access, h1, k1)))
        })))"

declare clear.simps [code]
declare copy.simps [code]

subsection \<open>Public operations (lines 79--191)\<close>

text \<open>
  Every operation takes the program state and the identity \<open>this\<close> of the queue object it
  is called on. Operations that run \<open>merge\<close>, \<open>clear\<close> or \<open>copy\<close> return \<open>None\<close> when that
  call does not return.
\<close>

text \<open>\<open>priority_queue()\<close>; \<open>c\<close> is the default-constructed \<open>Compare\<close>.\<close>

definition construct :: "'a state \<Rightarrow> nat \<Rightarrow> 'a compare \<Rightarrow> (error + unit) \<times> 'a state" where
  "construct s this c =
     (case queues s this of Some q \<Rightarrow> (Inl invalid_access, s)
      | None \<Rightarrow> (Inr (), s\<lparr>queues := (queues s)(this \<mapsto> \<lparr>root = None, sz = 0, comp = c\<rparr>)\<rparr>))"

text \<open>\<open>size()\<close> and \<open>empty()\<close>.\<close>

definition size_pq :: "'a state \<Rightarrow> nat \<Rightarrow> error + nat" where
  "size_pq s this = (case queues s this of None \<Rightarrow> Inl invalid_access | Some q \<Rightarrow> Inr (sz q))"

definition empty :: "'a state \<Rightarrow> nat \<Rightarrow> error + bool" where
  "empty s this = (case queues s this of None \<Rightarrow> Inl invalid_access | Some q \<Rightarrow> Inr (sz q = 0))"

text \<open>\<open>top()\<close>: a \<open>const\<close> member, so it returns no state.\<close>

definition top :: "'a state \<Rightarrow> nat \<Rightarrow> error + 'a" where
  "top s this =
     (case empty s this of Inl e \<Rightarrow> Inl e
      | Inr True \<Rightarrow> Inl container_is_empty
      | Inr False \<Rightarrow>
     (case queues s this of None \<Rightarrow> Inl invalid_access
      | Some q \<Rightarrow>
     (case root q of None \<Rightarrow> Inl invalid_access
      | Some a \<Rightarrow>
     (case nodes s a of None \<Rightarrow> Inl invalid_access
      | Some n \<Rightarrow> Inr (data n)))))"

text \<open>
  \<open>push\<close>: \<open>new Node(e)\<close> stands before the \<open>try\<close> block, so a throwing allocation leaves
  everything but the allocation counter as it was. The handler \<open>catch (...)\<close> deletes the
  new node and rethrows. Undefined behaviour is not an exception, so \<open>invalid_access\<close>
  passes the handler by.
\<close>

definition push :: "'a state \<Rightarrow> nat \<Rightarrow> 'a \<Rightarrow> ((error + unit) \<times> 'a state) option" where
  "push s this e =
     (let newNode = next_node s;
          s1 = s\<lparr>nodes := (nodes s)(newNode \<mapsto> new_Node e), next_node := newNode + 1\<rparr>
      in
     if new_throws s newNode then Some (Inl alloc_failure, s\<lparr>next_node := newNode + 1\<rparr>)
     else
     (case queues s1 this of None \<Rightarrow> Some (Inl invalid_access, s1)
      | Some q \<Rightarrow> do {
          (res, h') \<leftarrow> merge (comp q) (nodes s1) (root q) (Some newNode);
          (case res of
             Inr m \<Rightarrow>
               Some (Inr (), s1\<lparr>nodes := h', queues := (queues s1)(this \<mapsto> q\<lparr>root := m, sz := sz q + 1\<rparr>)\<rparr>)
           | Inl err \<Rightarrow>
               if err = invalid_access then Some (Inl err, s1\<lparr>nodes := h'\<rparr>)
               else
               (case delete_node h' newNode of Inl e' \<Rightarrow> Some (Inl e', s1\<lparr>nodes := h'\<rparr>)
                | Inr h'' \<Rightarrow> Some (Inl err, s1\<lparr>nodes := h''\<rparr>)))
        }))"

text \<open>\<open>pop\<close>: \<open>root\<close> is assigned only after \<open>merge\<close> has returned.\<close>

definition pop :: "'a state \<Rightarrow> nat \<Rightarrow> ((error + unit) \<times> 'a state) option" where
  "pop s this =
     (case empty s this of Inl e \<Rightarrow> Some (Inl e, s)
      | Inr True \<Rightarrow> Some (Inl container_is_empty, s)
      | Inr False \<Rightarrow>
     (case queues s this of None \<Rightarrow> Some (Inl invalid_access, s)
      | Some q \<Rightarrow>
     (case root q of None \<Rightarrow> Some (Inl invalid_access, s)
      | Some oldRoot \<Rightarrow>
     (case nodes s oldRoot of None \<Rightarrow> Some (Inl invalid_access, s)
      | Some n \<Rightarrow> do {
          (res, h') \<leftarrow> merge (comp q) (nodes s) (left n) (right n);
          (case res of Inl err \<Rightarrow> Some (Inl err, s\<lparr>nodes := h'\<rparr>)
           | Inr m \<Rightarrow>
          (case delete_node h' oldRoot of
             Inl e' \<Rightarrow> Some (Inl e', s\<lparr>nodes := h', queues := (queues s)(this \<mapsto> q\<lparr>root := m\<rparr>)\<rparr>)
           | Inr h'' \<Rightarrow>
               Some (Inr (), s\<lparr>nodes := h'', queues := (queues s)(this \<mapsto> q\<lparr>root := m, sz := sz q - 1\<rparr>)\<rparr>)))
        }))))"

text \<open>
  \<open>merge(priority_queue &other)\<close>, named \<open>merge_pq\<close> here. The identity test comes before
  either object is read; the handler only rethrows.
\<close>

definition merge_pq :: "'a state \<Rightarrow> nat \<Rightarrow> nat \<Rightarrow> ((error + unit) \<times> 'a state) option" where
  "merge_pq s this other =
     (if this = other then Some (Inr (), s)
      else
     (case queues s this of None \<Rightarrow> Some (Inl invalid_access, s)
      | Some q \<Rightarrow>
     (case queues s other of None \<Rightarrow> Some (Inl invalid_access, s)
      | Some oq \<Rightarrow> do {
          (res, h') \<leftarrow> merge (comp q) (nodes s) (root q) (root oq);
          (case res of Inl err \<Rightarrow> Some (Inl err, s\<lparr>nodes := h'\<rparr>)
           | Inr m \<Rightarrow>
               Some (Inr (), s\<lparr>nodes := h',
                                queues := (queues s)(this \<mapsto> q\<lparr>root := m, sz := sz q + sz oq\<rparr>,
                                                     other \<mapsto> oq\<lparr>root := None, sz := 0\<rparr>)\<rparr>))
        })))"

text \<open>
  The copy constructor builds a new object \<open>this\<close>: \<open>root(nullptr), sz(0), comp(other.comp)\<close>,
  then \<open>root = copy(other.root); sz = other.sz\<close>. When \<open>copy\<close> throws, no object has been
  built.
\<close>

definition copy_construct :: "'a state \<Rightarrow> nat \<Rightarrow> nat \<Rightarrow> ((error + unit) \<times> 'a state) option" where
  "copy_construct s this other =
     (case queues s this of Some q \<Rightarrow> Some (Inl invalid_access, s)
      | None \<Rightarrow>
     (case queues s other of None \<Rightarrow> Some (Inl invalid_access, s)
      | Some oq \<Rightarrow> do {
          (res, h', k') \<leftarrow> copy (new_throws s) (nodes s, next_node s) (root oq);
          (case res of Inl err \<Rightarrow> Some (Inl err, s\<lparr>nodes := h', next_node := k'\<rparr>)
           | Inr r \<Rightarrow>
               Some (Inr (), s\<lparr>nodes := h', next_node := k',
                                queues := (queues s)(this \<mapsto> \<lparr>root = r, sz = sz oq, comp = comp oq\<rparr>)\<rparr>))
        }))"

text \<open>
  \<open>operator=\<close>: the identity test comes before \<open>clear(root)\<close>, and \<open>clear(root)\<close> before
  \<open>copy(other.root)\<close>. When \<open>copy\<close> throws, \<open>root\<close>, \<open>sz\<close> and \<open>comp\<close> have not been assigned:
  the object keeps the \<open>root\<close> whose nodes \<open>clear\<close> has deleted.
\<close>

definition assign :: "'a state \<Rightarrow> nat \<Rightarrow> nat \<Rightarrow> ((error + unit) \<times> 'a state) option" where
  "assign s this other =
     (if this \<noteq> other then
        (case queues s this of None \<Rightarrow> Some (Inl invalid_access, s)
         | Some q \<Rightarrow> do {
             (r1, h1) \<leftarrow> clear (nodes s) (root q);
             (case r1 of Inl err \<Rightarrow> Some (Inl err, s\<lparr>nodes := h1\<rparr>)
              | Inr u \<Rightarrow>
             (case queues s other of None \<Rightarrow> Some (Inl invalid_access, s\<lparr>nodes := h1\<rparr>)
              | Some oq \<Rightarrow> do {
                  (r2, h2, k2) \<leftarrow> copy (new_throws s) (h1, next_node s) (root oq);
                  (case r2 of Inl err \<Rightarrow> Some (Inl err, s\<lparr>nodes := h2, next_node := k2\<rparr>)
                   | Inr r \<Rightarrow>
                       Some (Inr (), s\<lparr>nodes := h2, next_node := k2,
                                        queues := (queues s)(this \<mapsto> \<lparr>root = r, sz = sz oq, comp = comp oq\<rparr>)\<rparr>))
                }))
           })
      else Some (Inr (), s))"

text \<open>\<open>~priority_queue()\<close>: \<open>clear(root)\<close>, after which the object is gone.\<close>

definition destroy :: "'a state \<Rightarrow> nat \<Rightarrow> ((error + unit) \<times> 'a state) option" where
  "destroy s this =
     (case queues s this of None \<Rightarrow> Some (Inl invalid_access, s)
      | Some q \<Rightarrow> do {
          (r1, h1) \<leftarrow> clear (nodes s) (root q);
          (case r1 of Inl err \<Rightarrow> Some (Inl err, s\<lparr>nodes := h1\<rparr>)
           | Inr u \<Rightarrow> Some (Inr (), s\<lparr>nodes := h1, queues := (queues s)(this := None)\<rparr>))
        })"

subsection \<open>The client loop that empties a queue\<close>

text \<open>
  Not in the source: the loop \<open>while (!q.empty()) { x = q.top(); q.pop(); ... }\<close> that the
  specification calls draining. It returns every element taken together with \<open>size()\<close> as
  read right after the \<open>pop()\<close>, and stops at the first exception.
\<close>

partial_function (option) drain ::
  "'a state \<Rightarrow> nat \<Rightarrow> ((error + ('a \<times> nat) list) \<times> 'a state) option"
where
  "drain s q =
     (case empty s q of Inl e \<Rightarrow> Some (Inl e, s)
      | Inr b \<Rightarrow>
     if b then Some (Inr [], s)
     else
     (case top s q of Inl e \<Rightarrow> Some (Inl e, s)
      | Inr x \<Rightarrow> do {
          (r, s1) \<leftarrow> pop s q;
          (case r of Inl e \<Rightarrow> Some (Inl e, s1)
           | Inr u \<Rightarrow>
          (case size_pq s1 q of Inl e \<Rightarrow> Some (Inl e, s1)
           | Inr n \<Rightarrow> do {
               (r2, s2) \<leftarrow> drain s1 q;
               (case r2 of Inl e \<Rightarrow> Some (Inl e, s2)
                | Inr rest \<Rightarrow> Some (Inr ((x, n) # rest), s2))
             }))
        }))"

declare drain.simps [code]

text \<open>
  Two more client loops: \<open>push_all\<close> pushes the elements of a list in order and stops at
  the first exception; \<open>run_ops\<close> applies a list of \<open>push\<close> and \<open>pop\<close> calls to one queue
  and, like a caller that catches, goes on after an exception.
\<close>

fun push_all :: "'a state \<Rightarrow> nat \<Rightarrow> 'a list \<Rightarrow> ((error + unit) \<times> 'a state) option" where
  "push_all s q [] = Some (Inr (), s)"
| "push_all s q (x # xs) =
     (case push s q x of None \<Rightarrow> None
      | Some (Inl e, s') \<Rightarrow> Some (Inl e, s')
      | Some (Inr u, s') \<Rightarrow> push_all s' q xs)"

datatype 'a mutation = Push 'a | Pop

fun run_ops :: "'a state \<Rightarrow> nat \<Rightarrow> 'a mutation list \<Rightarrow> 'a state option" where
  "run_ops s q [] = Some s"
| "run_ops s q (m # ms) =
     (case (case m of Push e \<Rightarrow> push s q e | Pop \<Rightarrow> pop s q) of
        None \<Rightarrow> None
      | Some (r, s') \<Rightarrow> run_ops s' q ms)"

subsection \<open>Reachable states\<close>

text \<open>
  The program starts with no node and no queue object; which allocations will throw is
  arbitrary (in \<open>init_state\<close> itself none does). A member function is called on an object
  that exists, and a constructor builds an object that does not exist yet; a state is
  reachable when such calls lead to it, whatever they return.
\<close>

definition init_state :: "'a state" where
  "init_state = \<lparr>nodes = Map.empty, next_node = 0, new_throws = (\<lambda>a. False), queues = Map.empty\<rparr>"

inductive reachable :: "'a state \<Rightarrow> bool" where
  start: "reachable (init_state\<lparr>new_throws := thr\<rparr>)"
| construct: "reachable s \<Longrightarrow> queues s q = None \<Longrightarrow> construct s q c = (r, s') \<Longrightarrow> reachable s'"
| push: "reachable s \<Longrightarrow> queues s q \<noteq> None \<Longrightarrow> push s q e = Some (r, s') \<Longrightarrow> reachable s'"
| pop: "reachable s \<Longrightarrow> queues s q \<noteq> None \<Longrightarrow> pop s q = Some (r, s') \<Longrightarrow> reachable s'"
| merge: "reachable s \<Longrightarrow> queues s q \<noteq> None \<Longrightarrow> queues s p \<noteq> None \<Longrightarrow>
          merge_pq s q p = Some (r, s') \<Longrightarrow> reachable s'"
| copy: "reachable s \<Longrightarrow> queues s q = None \<Longrightarrow> queues s p \<noteq> None \<Longrightarrow>
          copy_construct s q p = Some (r, s') \<Longrightarrow> reachable s'"
| assign: "reachable s \<Longrightarrow> queues s q \<noteq> None \<Longrightarrow> queues s p \<noteq> None \<Longrightarrow>
          assign s q p = Some (r, s') \<Longrightarrow> reachable s'"
| destroy: "reachable s \<Longrightarrow> queues s q \<noteq> None \<Longrightarrow> destroy s q = Some (r, s') \<Longrightarrow> reachable s'"

text \<open>
  \<open>reachable_ok\<close> is \<open>reachable\<close> without the assignments in which an allocation throws; every
  other call, failed or not, is still there.
\<close>

inductive reachable_ok :: "'a state \<Rightarrow> bool" where
  start: "reachable_ok (init_state\<lparr>new_throws := thr\<rparr>)"
| construct: "reachable_ok s \<Longrightarrow> queues s q = None \<Longrightarrow> construct s q c = (r, s') \<Longrightarrow> reachable_ok s'"
| push: "reachable_ok s \<Longrightarrow> queues s q \<noteq> None \<Longrightarrow> push s q e = Some (r, s') \<Longrightarrow> reachable_ok s'"
| pop: "reachable_ok s \<Longrightarrow> queues s q \<noteq> None \<Longrightarrow> pop s q = Some (r, s') \<Longrightarrow> reachable_ok s'"
| merge: "reachable_ok s \<Longrightarrow> queues s q \<noteq> None \<Longrightarrow> queues s p \<noteq> None \<Longrightarrow>
          merge_pq s q p = Some (r, s') \<Longrightarrow> reachable_ok s'"
| copy: "reachable_ok s \<Longrightarrow> queues s q = None \<Longrightarrow> queues s p \<noteq> None \<Longrightarrow>
          copy_construct s q p = Some (r, s') \<Longrightarrow> reachable_ok s'"
| assign: "reachable_ok s \<Longrightarrow> queues s q \<noteq> None \<Longrightarrow> queues s p \<noteq> None \<Longrightarrow>
          assign s q p = Some (r, s') \<Longrightarrow> r \<noteq> Inl alloc_failure \<Longrightarrow> reachable_ok s'"
| destroy: "reachable_ok s \<Longrightarrow> queues s q \<noteq> None \<Longrightarrow> destroy s q = Some (r, s') \<Longrightarrow> reachable_ok s'"


subsection \<open>Trees laid out in the store\<close>

text \<open>
  What follows is not in the source: it is the vocabulary in which the properties of the
  pointer structure are stated. A tree \<open>('p, 'a) ltree\<close> records, for every node, its address,
  its element and its stored \<open>npl\<close>. \<open>owns h t\<close> says that the store \<open>h\<close> holds exactly this
  tree at these addresses; together with \<open>distinct (addrs t)\<close> it says that the nodes
  reachable from \<open>rootp t\<close> form a tree (no sharing, no cycle). \<open>mergeT\<close> is \<open>merge\<close> read as
  a function on such trees (\<open>None\<close> when the comparator throws), \<open>relabel\<close> gives the
  addresses that \<open>copy\<close> hands out, and \<open>shape\<close> forgets the addresses.
\<close>

datatype ('p, 'a) ltree = Tip | Br (lsub: "('p, 'a) ltree") (loc: 'p) (elem: 'a) (stored: int) (rsub: "('p, 'a) ltree")

fun rootp :: "('p, 'a) ltree \<Rightarrow> 'p option" where
  "rootp Tip = None"
| "rootp (Br l a x k r) = Some a"

fun rk :: "('p, 'a) ltree \<Rightarrow> int" where
  "rk Tip = 0"
| "rk (Br l a x k r) = k"

fun addrs :: "('p, 'a) ltree \<Rightarrow> 'p list" where
  "addrs Tip = []"
| "addrs (Br l a x k r) = a # addrs l @ addrs r"

fun elems :: "('p, 'a) ltree \<Rightarrow> 'a multiset" where
  "elems Tip = {#}"
| "elems (Br l a x k r) = add_mset x (elems l + elems r)"

fun owns :: "'a store \<Rightarrow> (nat, 'a) ltree \<Rightarrow> bool" where
  "owns h Tip = True"
| "owns h (Br l a x k r) =
     (h a = Some \<lparr>data = x, left = rootp l, right = rootp r, npl = k\<rparr> \<and> owns h l \<and> owns h r)"

fun leftist :: "('p, 'a) ltree \<Rightarrow> bool" where
  "leftist Tip = True"
| "leftist (Br l a x k r) = (rk r \<le> rk l \<and> k = rk r + 1 \<and> leftist l \<and> leftist r)"

fun root_ge :: "('a \<Rightarrow> 'a \<Rightarrow> bool) \<Rightarrow> 'a \<Rightarrow> ('p, 'a) ltree \<Rightarrow> bool" where
  "root_ge lt x Tip = True"
| "root_ge lt x (Br l a y k r) = (\<not> lt x y)"

fun heap_ordered :: "('a \<Rightarrow> 'a \<Rightarrow> bool) \<Rightarrow> ('p, 'a) ltree \<Rightarrow> bool" where
  "heap_ordered lt Tip = True"
| "heap_ordered lt (Br l a x k r) =
     (root_ge lt x l \<and> root_ge lt x r \<and> heap_ordered lt l \<and> heap_ordered lt r)"

definition strict_weak_order :: "('a \<Rightarrow> 'a \<Rightarrow> bool) \<Rightarrow> bool" where
  "strict_weak_order lt =
     ((\<forall>x. \<not> lt x x) \<and> (\<forall>x y z. lt x y \<longrightarrow> lt y z \<longrightarrow> lt x z) \<and>
      (\<forall>x y z. \<not> lt x y \<longrightarrow> \<not> lt y x \<longrightarrow> \<not> lt y z \<longrightarrow> \<not> lt z y \<longrightarrow> \<not> lt x z \<and> \<not> lt z x))"

definition fixT :: "('p, 'a) ltree \<Rightarrow> 'p \<Rightarrow> 'a \<Rightarrow> ('p, 'a) ltree \<Rightarrow> ('p, 'a) ltree" where
  "fixT l a x m = (if rk l < rk m then Br m a x (rk l + 1) l else Br l a x (rk m + 1) m)"

function mergeT :: "'a compare \<Rightarrow> ('p, 'a) ltree \<Rightarrow> ('p, 'a) ltree \<Rightarrow> ('p, 'a) ltree option" where
  "mergeT c Tip t2 = Some t2"
| "mergeT c (Br l1 a1 x1 k1 r1) Tip = Some (Br l1 a1 x1 k1 r1)"
| "mergeT c (Br l1 a1 x1 k1 r1) (Br l2 a2 x2 k2 r2) =
     (case c x1 x2 of None \<Rightarrow> None
      | Some lt \<Rightarrow>
          if lt then map_option (fixT l2 a2 x2) (mergeT c r2 (Br l1 a1 x1 k1 r1))
          else map_option (fixT l1 a1 x1) (mergeT c r1 (Br l2 a2 x2 k2 r2)))"
  by pat_completeness auto
termination
  by (relation "measure (\<lambda>(c, t1, t2). size t1 + size t2)") auto

fun relabel :: "nat \<Rightarrow> ('p, 'a) ltree \<Rightarrow> (nat, 'a) ltree" where
  "relabel b Tip = Tip"
| "relabel b (Br l a x k r) = Br (relabel (b + 1) l) b x k (relabel (b + 1 + size l) r)"

fun shape :: "('p, 'a) ltree \<Rightarrow> (unit, 'a) ltree" where
  "shape Tip = Tip"
| "shape (Br l a x k r) = Br (shape l) () x k (shape r)"

definition total_cmp :: "('a \<Rightarrow> 'a \<Rightarrow> bool) \<Rightarrow> 'a compare" where
  "total_cmp lt = (\<lambda>x y. Some (lt x y))"

text \<open>
  \<open>alloc_free\<close>: no address from \<open>next_node\<close> on is live. \<open>alloc_ok\<close>: moreover no allocation
  from now on throws. \<open>holds s q t\<close>: the queue object \<open>q\<close>
  exists, its \<open>root\<close> is the root of \<open>t\<close>, its \<open>sz\<close> is the number of nodes of \<open>t\<close>, and the
  node store holds \<open>t\<close> as a tree. \<open>cmp_of s q\<close> is the comparator stored in \<open>q\<close>.
\<close>

definition alloc_free :: "'a state \<Rightarrow> bool" where
  "alloc_free s = (\<forall>a\<ge>next_node s. nodes s a = None)"

definition alloc_ok :: "'a state \<Rightarrow> bool" where
  "alloc_ok s = (alloc_free s \<and> (\<forall>a\<ge>next_node s. \<not> new_throws s a))"

definition holds :: "'a state \<Rightarrow> nat \<Rightarrow> (nat, 'a) ltree \<Rightarrow> bool" where
  "holds s q t =
     (case queues s q of None \<Rightarrow> False
      | Some Q \<Rightarrow> root Q = rootp t \<and> sz Q = size t \<and> owns (nodes s) t \<and> distinct (addrs t))"

definition cmp_of :: "'a state \<Rightarrow> nat \<Rightarrow> 'a compare" where
  "cmp_of s q = (case queues s q of None \<Rightarrow> (\<lambda>x y. None) | Some Q \<Rightarrow> comp Q)"

text \<open>
  \<open>node_leftist h a\<close> reads the invariant off the store at one node, with \<open>getNPL\<close> as the
  source reads it. \<open>null_path_length\<close> is the quantity the stored \<open>npl\<close> stands for.
  \<open>state_inv s T\<close> is the invariant of a whole state: \<open>T\<close> names the tree of every queue
  object, and different queue objects own disjoint sets of nodes.
\<close>

definition node_leftist :: "'a store \<Rightarrow> nat \<Rightarrow> bool" where
  "node_leftist h a =
     (case h a of None \<Rightarrow> False
      | Some n \<Rightarrow>
         (case (getNPL h (left n), getNPL h (right n)) of
            (Inr kl, Inr kr) \<Rightarrow> kr \<le> kl \<and> npl n = kr + 1
          | _ \<Rightarrow> False))"

fun null_path_length :: "('p, 'a) ltree \<Rightarrow> int" where
  "null_path_length Tip = 0"
| "null_path_length (Br l a x k r) = 1 + min (null_path_length l) (null_path_length r)"

definition state_inv :: "'a state \<Rightarrow> (nat \<Rightarrow> (nat, 'a) ltree) \<Rightarrow> bool" where
  "state_inv s T =
     (alloc_free s
      \<and> (\<forall>q. (queues s q = None \<longrightarrow> T q = Tip) \<and> (queues s q \<noteq> None \<longrightarrow> holds s q (T q)))
      \<and> (\<forall>q q'. q \<noteq> q' \<longrightarrow> set (addrs (T q)) \<inter> set (addrs (T q')) = {})
      \<and> (\<forall>q. leftist (T q)))"


text \<open>
  Two abbreviations for the proofs. \<open>relink h' w m\<close> is the part of \<open>merge\<close> after the recursive
  call, lines 47 to 55: store \<open>m\<close> into \<open>w->right\<close>, swap the children if needed, update \<open>npl\<close>,
  return \<open>w\<close> (lemma \<open>merge_rec\<close>). \<open>release h as\<close> is the store \<open>h\<close> with the addresses \<open>as\<close>
  deleted, which is what \<open>clear\<close> leaves (lemma \<open>clear_refines\<close>).
\<close>

definition relink :: "'a store \<Rightarrow> nat \<Rightarrow> nat option \<Rightarrow> ((error + nat option) \<times> 'a store) option" where
  "relink h' w m =
     (case h' w of None \<Rightarrow> Some (Inl invalid_access, h')
      | Some n \<Rightarrow>
         let hr = h'(w \<mapsto> n\<lparr>right := m\<rparr>) in
     (case getNPL hr (left n) of Inl e \<Rightarrow> Some (Inl e, hr)
      | Inr kl \<Rightarrow>
     (case getNPL hr m of Inl e \<Rightarrow> Some (Inl e, hr)
      | Inr kr \<Rightarrow>
         let hs = (if kl < kr then hr(w \<mapsto> n\<lparr>left := m, right := left n\<rparr>) else hr) in
     (case updateNPL hs (Some w) of Inl e \<Rightarrow> Some (Inl e, hs)
      | Inr hu \<Rightarrow> Some (Inr (Some w), hu)))))"

definition release :: "'a store \<Rightarrow> nat list \<Rightarrow> 'a store" where
  "release h as = (\<lambda>a. if a \<in> set as then None else h a)"

subsection \<open>Concrete comparators and states\<close>

text \<open>
  \<open>less_int\<close> is \<open>std::less<int>\<close>. \<open>less_int_throw34\<close> is a comparator that throws when asked
  to compare 3 with 4. \<open>st_throw\<close> is the state after \<open>push(5); push(3); push(4)\<close> on queue 0,
  \<open>push(3)\<close> on queue 1 and \<open>push(4)\<close> on queue 2, all three with that comparator.
\<close>

definition less_int :: "int compare" where
  "less_int = total_cmp (<)"

definition less_int_throw34 :: "int compare" where
  "less_int_throw34 x y = (if (x = 3 \<and> y = 4) \<or> (x = 4 \<and> y = 3) then None else Some (x < y))"

definition st_throw :: "int state" where
  "st_throw =
     \<lparr>nodes = Map.empty
        (0 \<mapsto> \<lparr>data = 5, left = Some 1, right = Some 2, npl = 2\<rparr>,
         1 \<mapsto> \<lparr>data = 3, left = None, right = None, npl = 1\<rparr>,
         2 \<mapsto> \<lparr>data = 4, left = None, right = None, npl = 1\<rparr>,
         3 \<mapsto> \<lparr>data = 3, left = None, right = None, npl = 1\<rparr>,
         4 \<mapsto> \<lparr>data = 4, left = None, right = None, npl = 1\<rparr>),
      next_node = 5,
      new_throws = (\<lambda>a. False),
      queues = Map.empty
        (0 \<mapsto> \<lparr>root = Some 0, sz = 3, comp = less_int_throw34\<rparr>,
         1 \<mapsto> \<lparr>root = Some 3, sz = 1, comp = less_int_throw34\<rparr>,
         2 \<mapsto> \<lparr>root = Some 4, sz = 1, comp = less_int_throw34\<rparr>)\<rparr>"

text \<open>
  \<open>st_empty\<close> is the state after \<open>priority_queue<int> q0;\<close>. \<open>st_two\<close> is the state of the
  specification's example: queue 0 after
  \<open>push(1); push(5); push(3)\<close>, which holds \<open>tree_153\<close>, and queue 1 after
  \<open>push(4); push(2)\<close>, which holds \<open>tree_42\<close>; \<open>built_two\<close> runs exactly these calls.
\<close>

definition st_empty :: "int state" where
  "st_empty = snd (construct init_state 0 less_int)"

definition tree_153 :: "(nat, int) ltree" where
  "tree_153 = Br (Br Tip 0 1 1 Tip) 1 5 2 (Br Tip 2 3 1 Tip)"

definition tree_42 :: "(nat, int) ltree" where
  "tree_42 = Br (Br Tip 4 2 1 Tip) 3 4 1 Tip"

definition st_two :: "int state" where
  "st_two =
     \<lparr>nodes = Map.empty
        (0 \<mapsto> \<lparr>data = 1, left = None, right = None, npl = 1\<rparr>,
         1 \<mapsto> \<lparr>data = 5, left = Some 0, right = Some 2, npl = 2\<rparr>,
         2 \<mapsto> \<lparr>data = 3, left = None, right = None, npl = 1\<rparr>,
         3 \<mapsto> \<lparr>data = 4, left = Some 4, right = None, npl = 1\<rparr>,
         4 \<mapsto> \<lparr>data = 2, left = None, right = None, npl = 1\<rparr>),
      next_node = 5,
      new_throws = (\<lambda>a. False),
      queues = Map.empty
        (0 \<mapsto> \<lparr>root = Some 1, sz = 3, comp = less_int\<rparr>,
         1 \<mapsto> \<lparr>root = Some 3, sz = 2, comp = less_int\<rparr>)\<rparr>"

definition built_two :: "int state" where
  "built_two =
     snd (the (push_all (snd (the (push_all (snd (construct st_empty 1 less_int)) 0 [1, 5, 3]))) 1 [4, 2]))"

text \<open>
  \<open>st_alloc\<close> is the state after the same calls, \<open>priority_queue<int> q0, q1;\<close> then
  \<open>push(1); push(5); push(3)\<close> on \<open>q0\<close> and \<open>push(4); push(2)\<close> on \<open>q1\<close>, in a program whose
  seventh allocation (the one numbered 6) throws; nothing has thrown yet. \<open>st_dangling\<close> is
  the state after \<open>q1 = q0\<close> called there: \<open>clear\<close> deletes the two nodes of \<open>q1\<close>, \<open>copy\<close>
  allocates node 5 for the root of \<open>q0\<close> and throws when it allocates the copy of the left
  child.
\<close>

definition st_alloc :: "int state" where
  "st_alloc =
     snd (the (push_all (snd (the (push_all
       (snd (construct (snd (construct (init_state\<lparr>new_throws := (\<lambda>a. a = 6)\<rparr>) 0 less_int)) 1 less_int))
       0 [1, 5, 3]))) 1 [4, 2]))"

definition st_dangling :: "int state" where
  "st_dangling = snd (the (assign st_alloc 1 0))"

subsection \<open>Facts about merging trees\<close>

lemma mergeT_Tip2 [simp]: "mergeT c t Tip = Some t"
  by (cases t) simp_all

lemma rootp_fixT [simp]: "rootp (fixT l a x m) = Some a"
  by (simp add: fixT_def)

lemma size_fixT [simp]: "size (fixT l a x m) = size l + size m + 1"
  by (simp add: fixT_def)

lemma elems_fixT [simp]: "elems (fixT l a x m) = add_mset x (elems l + elems m)"
  by (simp add: fixT_def)

lemma mset_addrs_fixT [simp]: "mset (addrs (fixT l a x m)) = add_mset a (mset (addrs l) + mset (addrs m))"
  by (simp add: fixT_def)

lemma leftist_fixT [simp]: "leftist (fixT l a x m) = (leftist l \<and> leftist m)"
  by (auto simp: fixT_def)

lemma mergeT_induct_Some [consumes 1, case_names Tip1 Tip2 Swap Keep]:
  assumes "mergeT c t1 t2 = Some t"
    and "\<And>t2. P Tip t2 t2"
    and "\<And>l1 a1 x1 k1 r1. P (Br l1 a1 x1 k1 r1) Tip (Br l1 a1 x1 k1 r1)"
    and "\<And>l1 a1 x1 k1 r1 l2 a2 x2 k2 r2 m.
           c x1 x2 = Some True \<Longrightarrow> mergeT c r2 (Br l1 a1 x1 k1 r1) = Some m \<Longrightarrow>
           P r2 (Br l1 a1 x1 k1 r1) m \<Longrightarrow>
           P (Br l1 a1 x1 k1 r1) (Br l2 a2 x2 k2 r2) (fixT l2 a2 x2 m)"
    and "\<And>l1 a1 x1 k1 r1 l2 a2 x2 k2 r2 m.
           c x1 x2 = Some False \<Longrightarrow> mergeT c r1 (Br l2 a2 x2 k2 r2) = Some m \<Longrightarrow>
           P r1 (Br l2 a2 x2 k2 r2) m \<Longrightarrow>
           P (Br l1 a1 x1 k1 r1) (Br l2 a2 x2 k2 r2) (fixT l1 a1 x1 m)"
  shows "P t1 t2 t"
  using assms
proof (induction c t1 t2 arbitrary: t rule: mergeT.induct)
  case (1 c t2)
  then show ?case by simp
next
  case (2 c l1 a1 x1 k1 r1)
  then show ?case by auto
next
  case (3 c l1 a1 x1 k1 r1 l2 a2 x2 k2 r2)
  show ?case
  proof (cases "c x1 x2")
    case None
    then show ?thesis using "3.prems" by simp
  next
    case (Some lt)
    show ?thesis
    proof (cases lt)
      case True
      with Some "3.prems" obtain m where m: "mergeT c r2 (Br l1 a1 x1 k1 r1) = Some m" "t = fixT l2 a2 x2 m"
        by auto
      from "3.IH"(1) [OF Some True m(1) "3.prems"(2-5)] have "P r2 (Br l1 a1 x1 k1 r1) m" by blast
      moreover from Some True have "c x1 x2 = Some True" by simp
      ultimately show ?thesis unfolding m(2) using m(1) by (intro "3.prems"(4))
    next
      case False
      with Some "3.prems" obtain m where m: "mergeT c r1 (Br l2 a2 x2 k2 r2) = Some m" "t = fixT l1 a1 x1 m"
        by auto
      from "3.IH"(2) [OF Some False m(1) "3.prems"(2-5)] have "P r1 (Br l2 a2 x2 k2 r2) m" by blast
      moreover from Some False have "c x1 x2 = Some False" by simp
      ultimately show ?thesis unfolding m(2) using m(1) by (intro "3.prems"(5))
    qed
  qed
qed

lemma size_mergeT: "mergeT c t1 t2 = Some t \<Longrightarrow> size t = size t1 + size t2"
  by (induction rule: mergeT_induct_Some) auto

lemma elems_mergeT: "mergeT c t1 t2 = Some t \<Longrightarrow> elems t = elems t1 + elems t2"
  by (induction rule: mergeT_induct_Some) auto

lemma addrs_mergeT: "mergeT c t1 t2 = Some t \<Longrightarrow> mset (addrs t) = mset (addrs t1) + mset (addrs t2)"
  by (induction rule: mergeT_induct_Some) auto

lemma set_addrs_mergeT: "mergeT c t1 t2 = Some t \<Longrightarrow> set (addrs t) = set (addrs t1) \<union> set (addrs t2)"
  by (drule addrs_mergeT) (metis set_mset_mset set_mset_union)

lemma distinct_mergeT:
  "mergeT c t1 t2 = Some t \<Longrightarrow> distinct (addrs t1 @ addrs t2) \<Longrightarrow> distinct (addrs t)"
  by (drule addrs_mergeT) (metis mset_append mset_eq_imp_distinct_iff)

lemma leftist_mergeT: "mergeT c t1 t2 = Some t \<Longrightarrow> leftist t1 \<Longrightarrow> leftist t2 \<Longrightarrow> leftist t"
  by (induction rule: mergeT_induct_Some) auto

lemma mergeT_total: "\<exists>t. mergeT (total_cmp lt) t1 t2 = Some t"
proof (induction "total_cmp lt" t1 t2 rule: mergeT.induct)
  case (3 l1 a1 x1 k1 r1 l2 a2 x2 k2 r2)
  then show ?case by (cases "lt x1 x2") (auto simp: total_cmp_def)
qed simp_all

lemma root_mergeT:
  "mergeT c t1 t2 = Some t \<Longrightarrow> rootp t = rootp t1 \<or> rootp t = rootp t2"
  by (induction rule: mergeT_induct_Some) auto

lemma swo_irrefl: "strict_weak_order lt \<Longrightarrow> \<not> lt x x"
  by (simp add: strict_weak_order_def)

lemma swo_asym: "strict_weak_order lt \<Longrightarrow> lt x y \<Longrightarrow> \<not> lt y x"
  unfolding strict_weak_order_def by blast

lemma swo_neg_trans:
  assumes "strict_weak_order lt" and "\<not> lt x y" and "\<not> lt y z"
  shows "\<not> lt x z"
proof
  assume xz: "lt x z"
  from assms(1) have tr: "\<And>a b c. lt a b \<Longrightarrow> lt b c \<Longrightarrow> lt a c"
    and inc: "\<And>a b c. \<not> lt a b \<Longrightarrow> \<not> lt b a \<Longrightarrow> \<not> lt b c \<Longrightarrow> \<not> lt c b \<Longrightarrow> \<not> lt a c"
    unfolding strict_weak_order_def by blast+
  have "\<not> lt y x" using tr [of y x z] xz assms(3) by blast
  moreover have "\<not> lt z y" using tr [of x z y] xz assms(2) by blast
  ultimately show False using inc [of x y z] assms(2,3) xz by blast
qed

lemma root_ge_fixT [simp]: "root_ge lt x (fixT l a y m) = (\<not> lt x y)"
  by (simp add: fixT_def)

lemma heap_ordered_fixT [simp]:
  "heap_ordered lt (fixT l a x m) = (root_ge lt x l \<and> root_ge lt x m \<and> heap_ordered lt l \<and> heap_ordered lt m)"
  by (auto simp: fixT_def)

lemma root_ge_mergeT:
  "mergeT c t1 t2 = Some t \<Longrightarrow> root_ge lt x t1 \<Longrightarrow> root_ge lt x t2 \<Longrightarrow> root_ge lt x t"
  by (induction rule: mergeT_induct_Some) auto

lemma heap_ordered_mergeT:
  assumes "mergeT (total_cmp lt) t1 t2 = Some t" and "strict_weak_order lt"
    and "heap_ordered lt t1" and "heap_ordered lt t2"
  shows "heap_ordered lt t"
  using assms(1,3,4)
proof (induction rule: mergeT_induct_Some)
  case (Swap l1 a1 x1 k1 r1 l2 a2 x2 k2 r2 m)
  from Swap(1) have "lt x1 x2" by (simp add: total_cmp_def)
  then have "\<not> lt x2 x1" using swo_asym [OF assms(2)] by blast
  then have "root_ge lt x2 m" using Swap by (auto intro: root_ge_mergeT)
  then show ?case using Swap by simp
next
  case (Keep l1 a1 x1 k1 r1 l2 a2 x2 k2 r2 m)
  from Keep(1) have "\<not> lt x1 x2" by (simp add: total_cmp_def)
  then have "root_ge lt x1 m" using Keep by (auto intro: root_ge_mergeT)
  then show ?case using Keep by simp
qed simp_all

lemma heap_all_ge:
  assumes "strict_weak_order lt"
  shows "heap_ordered lt t \<Longrightarrow> root_ge lt x t \<Longrightarrow> \<forall>y \<in># elems t. \<not> lt x y"
proof (induction t)
  case Tip
  then show ?case by simp
next
  case (Br l a y k r)
  from Br.prems have xy: "\<not> lt x y" by simp
  have "root_ge lt x l" using Br.prems xy swo_neg_trans [OF assms, of x y] by (cases l) auto
  moreover have "root_ge lt x r" using Br.prems xy swo_neg_trans [OF assms, of x y] by (cases r) auto
  ultimately show ?case using Br xy by auto
qed

lemma heap_root_max:
  assumes "strict_weak_order lt" and "heap_ordered lt (Br l a x k r)"
  shows "\<forall>y \<in># elems (Br l a x k r). \<not> lt x y"
  using heap_all_ge [OF assms(1), of l x] heap_all_ge [OF assms(1), of r x] assms(2)
    swo_irrefl [OF assms(1), of x]
  by auto

text \<open>
  \<open>drainT\<close> is the client loop \<open>drain\<close> read as a function on trees: the root, then the
  drain of the merge of its children, each element with the number of nodes left.
\<close>

function drainT :: "'a compare \<Rightarrow> ('p, 'a) ltree \<Rightarrow> ('a \<times> nat) list option" where
  "drainT c Tip = Some []"
| "drainT c (Br l a x k r) =
     (case mergeT c l r of None \<Rightarrow> None
      | Some m \<Rightarrow> map_option ((#) (x, size m)) (drainT c m))"
  by pat_completeness auto
termination
  by (relation "measure (\<lambda>(c, t). size t)") (auto dest: size_mergeT)

lemma drainT_total: "\<exists>ds. drainT (total_cmp lt) t = Some ds"
proof (induction "total_cmp lt" t rule: drainT.induct)
  case 1
  then show ?case by simp
next
  case (2 l a x k r)
  obtain m where m: "mergeT (total_cmp lt) l r = Some m" using mergeT_total by blast
  with 2 [OF m] show ?case by auto
qed

lemma drainT_props:
  assumes "strict_weak_order lt"
  shows "drainT (total_cmp lt) t = Some ds \<Longrightarrow> heap_ordered lt t \<Longrightarrow>
     mset (map fst ds) = elems t \<and> map snd ds = rev [0..<size t]
     \<and> sorted_wrt (\<lambda>x y. \<not> lt x y) (map fst ds)"
proof (induction "total_cmp lt" t arbitrary: ds rule: drainT.induct)
  case 1
  then show ?case by simp
next
  case (2 l a x k r)
  from "2.prems"(1) obtain m ds' where m: "mergeT (total_cmp lt) l r = Some m"
    and ds': "drainT (total_cmp lt) m = Some ds'" and ds: "ds = (x, size m) # ds'"
    by (auto split: option.splits)
  have hm: "heap_ordered lt m" using heap_ordered_mergeT [OF m assms] "2.prems"(2) by simp
  note IH = "2.hyps" [OF m ds' hm]
  have sz: "size m = size l + size r" by (rule size_mergeT [OF m])
  have el: "elems m = elems l + elems r" by (rule elems_mergeT [OF m])
  have "\<forall>y \<in># elems l + elems r. \<not> lt x y"
    using heap_root_max [OF assms "2.prems"(2)] by simp
  then have "\<forall>y \<in> set (map fst ds'). \<not> lt x y" using IH el by (metis set_mset_mset)
  then show ?case using IH ds sz el by simp
qed

subsection \<open>The store-level functions compute the tree-level ones\<close>

lemma merge_rec:
  assumes "h a1 = Some n1" and "h a2 = Some n2" and "c (data n1) (data n2) = Some lt"
  shows "merge c h (Some a1) (Some a2) =
           merge c h (right (if lt then n2 else n1)) (Some (if lt then a1 else a2)) \<bind>
             (\<lambda>(res, h'). case res of Inl e \<Rightarrow> Some (Inl e, h')
                            | Inr m \<Rightarrow> relink h' (if lt then a2 else a1) m)"
  using assms unfolding relink_def by (subst merge.simps) (simp add: Let_def)

lemma owns_frame: "owns h t \<Longrightarrow> (\<forall>a \<in> set (addrs t). h' a = h a) \<Longrightarrow> owns h' t"
  by (induction t) auto

lemma owns_live: "owns h t \<Longrightarrow> a \<in> set (addrs t) \<Longrightarrow> h a \<noteq> None"
  by (induction t) auto

lemma getNPL_owns: "owns h t \<Longrightarrow> getNPL h (rootp t) = Inr (rk t)"
  by (cases t) (auto simp: getNPL_def)

lemma owns_unique: "owns h t \<Longrightarrow> owns h t' \<Longrightarrow> rootp t = rootp t' \<Longrightarrow> t = t'"
proof (induction t arbitrary: t')
  case Tip
  then show ?case by (cases t') auto
next
  case (Br l a x k r)
  then show ?case by (cases t') auto
qed

lemma relink_owns:
  assumes w: "h' w = Some \<lparr>data = x, left = rootp l, right = r0, npl = k\<rparr>"
    and "owns h' l" and "owns h' m" and "w \<notin> set (addrs l)" and "w \<notin> set (addrs m)"
  shows "\<exists>hu. relink h' w (rootp m) = Some (Inr (Some w), hu)
          \<and> owns hu (fixT l w x m) \<and> (\<forall>a. a \<noteq> w \<longrightarrow> hu a = h' a)"
proof -
  let ?n = "\<lparr>data = x, left = rootp l, right = r0, npl = k\<rparr>"
  let ?hr = "h'(w \<mapsto> ?n\<lparr>right := rootp m\<rparr>)"
  have ol: "owns ?hr l" and om: "owns ?hr m" using assms by (auto intro: owns_frame)
  have gl: "getNPL ?hr (rootp l) = Inr (rk l)" by (rule getNPL_owns [OF ol])
  have gm: "getNPL ?hr (rootp m) = Inr (rk m)" by (rule getNPL_owns [OF om])
  show ?thesis
  proof (cases "rk l < rk m")
    case True
    let ?hs = "?hr(w \<mapsto> ?n\<lparr>left := rootp m, right := rootp l\<rparr>)"
    have "owns ?hs l" using assms by (auto intro: owns_frame)
    then have g: "getNPL ?hs (rootp l) = Inr (rk l)" by (rule getNPL_owns)
    let ?hu = "?hs(w \<mapsto> \<lparr>data = x, left = rootp m, right = rootp l, npl = rk l + 1\<rparr>)"
    have "owns ?hu l" "owns ?hu m" using assms by (auto intro: owns_frame)
    then have "owns ?hu (fixT l w x m)" using True by (simp add: fixT_def)
    then show ?thesis using True w gl gm g
      by (intro exI [of _ ?hu]) (simp add: relink_def updateNPL_def Let_def)
  next
    case False
    let ?hu = "?hr(w \<mapsto> \<lparr>data = x, left = rootp l, right = rootp m, npl = rk m + 1\<rparr>)"
    have "owns ?hu l" "owns ?hu m" using assms by (auto intro: owns_frame)
    then have "owns ?hu (fixT l w x m)" using False by (simp add: fixT_def)
    then show ?thesis using False w gl gm
      by (intro exI [of _ ?hu]) (simp add: relink_def updateNPL_def Let_def)
  qed
qed

text \<open>One level of the recursion, the same for both outcomes of the comparison.\<close>

lemma merge_level:
  assumes rec: "case mergeT c rw tlo of
           None \<Rightarrow> merge c h (rootp rw) (rootp tlo) = Some (Inl comparator_failure, h)
         | Some t \<Rightarrow> (\<exists>h'. merge c h (rootp rw) (rootp tlo) = Some (Inr (rootp t), h')
                        \<and> owns h' t
                        \<and> (\<forall>a. a \<notin> set (addrs rw @ addrs tlo) \<longrightarrow> h' a = h a))"
    and ow: "owns h (Br lw aw xw kw rw)"
    and dist: "distinct (addrs (Br lw aw xw kw rw) @ addrs tlo)"
  shows "case map_option (fixT lw aw xw) (mergeT c rw tlo) of
           None \<Rightarrow> merge c h (rootp rw) (rootp tlo) \<bind>
             (\<lambda>(res, h'). case res of Inl e \<Rightarrow> Some (Inl e, h') | Inr m \<Rightarrow> relink h' aw m)
               = Some (Inl comparator_failure, h)
         | Some t \<Rightarrow> (\<exists>h'. merge c h (rootp rw) (rootp tlo) \<bind>
             (\<lambda>(res, h'). case res of Inl e \<Rightarrow> Some (Inl e, h') | Inr m \<Rightarrow> relink h' aw m)
               = Some (Inr (rootp t), h')
                        \<and> owns h' t
                        \<and> (\<forall>a. a \<notin> set (addrs (Br lw aw xw kw rw) @ addrs tlo) \<longrightarrow> h' a = h a))"
proof (cases "mergeT c rw tlo")
  case None
  with rec show ?thesis by simp
next
  case (Some m)
  with rec obtain h' where h': "merge c h (rootp rw) (rootp tlo) = Some (Inr (rootp m), h')"
    "owns h' m" "\<forall>a. a \<notin> set (addrs rw @ addrs tlo) \<longrightarrow> h' a = h a" by auto
  have am: "set (addrs m) = set (addrs rw) \<union> set (addrs tlo)" by (rule set_addrs_mergeT [OF Some])
  have w: "h' aw = Some \<lparr>data = xw, left = rootp lw, right = rootp rw, npl = kw\<rparr>"
    using h'(3) dist ow by auto
  from ow have olw: "owns h lw" by simp
  have ol: "owns h' lw" by (rule owns_frame [OF olw]) (use dist h'(3) in auto)
  have d1: "aw \<notin> set (addrs lw)" and d2: "aw \<notin> set (addrs m)" using dist am by auto
  from relink_owns [OF w ol h'(2) d1 d2] obtain hu where hu:
    "relink h' aw (rootp m) = Some (Inr (Some aw), hu)"
    "owns hu (fixT lw aw xw m)" "\<forall>a. a \<noteq> aw \<longrightarrow> hu a = h' a" by blast
  have "\<forall>a. a \<notin> set (addrs (Br lw aw xw kw rw) @ addrs tlo) \<longrightarrow> hu a = h a"
    using hu(3) h'(3) by auto
  then show ?thesis using Some h'(1) hu(1,2) by simp
qed

lemma merge_refines:
  assumes "owns h t1" and "owns h t2" and "distinct (addrs t1 @ addrs t2)"
  shows "case mergeT c t1 t2 of
           None \<Rightarrow> merge c h (rootp t1) (rootp t2) = Some (Inl comparator_failure, h)
         | Some t \<Rightarrow> (\<exists>h'. merge c h (rootp t1) (rootp t2) = Some (Inr (rootp t), h')
                        \<and> owns h' t
                        \<and> (\<forall>a. a \<notin> set (addrs t1 @ addrs t2) \<longrightarrow> h' a = h a))"
  using assms
proof (induction c t1 t2 rule: mergeT.induct)
  case (1 c t2)
  then show ?case by (auto simp: merge.simps)
next
  case (2 c l1 a1 x1 k1 r1)
  then show ?case by (auto simp: merge.simps)
next
  case (3 c l1 a1 x1 k1 r1 l2 a2 x2 k2 r2)
  let ?t1 = "Br l1 a1 x1 k1 r1" and ?t2 = "Br l2 a2 x2 k2 r2"
  from "3.prems" have n1: "h a1 = Some \<lparr>data = x1, left = rootp l1, right = rootp r1, npl = k1\<rparr>"
    and n2: "h a2 = Some \<lparr>data = x2, left = rootp l2, right = rootp r2, npl = k2\<rparr>" by auto
  show ?case
  proof (cases "c x1 x2")
    case None
    then show ?thesis using n1 n2 by (subst merge.simps) simp
  next
    case (Some lt)
    note unf = merge_rec [OF n1 n2, of c lt, simplified, OF Some]
    show ?thesis
    proof (cases lt)
      case True
      from "3.prems" have p: "owns h r2" "owns h ?t1" "distinct (addrs r2 @ addrs ?t1)" by auto
      have d: "distinct (addrs ?t2 @ addrs ?t1)" using "3.prems"(3) by auto
      from merge_level [OF "3.IH"(1) [OF Some True p] "3.prems"(2) d]
      show ?thesis using Some True unf by (auto split: option.splits)
    next
      case False
      from "3.prems" have p: "owns h r1" "owns h ?t2" "distinct (addrs r1 @ addrs ?t2)" by auto
      from merge_level [OF "3.IH"(2) [OF Some False p] "3.prems"(1,3)]
      show ?thesis using Some False unf by (auto split: option.splits)
    qed
  qed
qed

lemma clear_refines:
  "owns h t \<Longrightarrow> distinct (addrs t) \<Longrightarrow> clear h (rootp t) = Some (Inr (), release h (addrs t))"
proof (induction t arbitrary: h)
  case Tip
  then show ?case by (simp add: clear.simps release_def)
next
  case (Br l a x k r)
  let ?n = "\<lparr>data = x, left = rootp l, right = rootp r, npl = k\<rparr>"
  let ?h1 = "release h (addrs l)"
  let ?h2 = "release ?h1 (addrs r)"
  from Br.prems have n: "h a = Some ?n" by simp
  have c1: "clear h (rootp l) = Some (Inr (), ?h1)" using Br by simp
  have n1: "?h1 a = Some ?n" using Br.prems by (simp add: release_def)
  from Br.prems have orr: "owns h r" by simp
  have "owns ?h1 r" by (rule owns_frame [OF orr]) (use Br.prems in \<open>auto simp: release_def\<close>)
  then have c2: "clear ?h1 (rootp r) = Some (Inr (), ?h2)" using Br by simp
  have n2: "?h2 a = Some ?n" using Br.prems by (simp add: release_def)
  have e: "?h2(a := None) = release h (addrs (Br l a x k r))"
    by (auto simp: release_def fun_eq_iff)
  have "clear h (Some a) = Some (Inr (), ?h2(a := None))"
    by (subst clear.simps) (simp add: n c1 n1 c2 n2 delete_node_def)
  then show ?case using e by simp
qed

lemma size_relabel [simp]: "size (relabel b t) = size t"
  by (induction t arbitrary: b) auto

lemma upt_head: "[b..<b + Suc n] = b # [Suc b..<Suc b + n]"
  using upt_conv_Cons [of b "b + Suc n"] by simp

lemma addrs_relabel: "addrs (relabel b t) = [b..<b + size t]"
proof (induction t arbitrary: b)
  case Tip
  then show ?case by simp
next
  case (Br l a x k r)
  have "[b..<b + size (Br l a x k r)] = b # [Suc b..<Suc b + (size l + size r)]"
    using upt_head [of b "size l + size r"] by simp
  also have "[Suc b..<Suc b + (size l + size r)] = [Suc b..<Suc b + size l] @ [Suc b + size l..<Suc b + size l + size r]"
    using upt_add_eq_append [of "Suc b" "Suc b + size l" "size r"] by (simp add: add.assoc)
  finally show ?case using Br by simp
qed

lemma copy_steps:
  "owns h t \<Longrightarrow> (\<forall>a\<ge>b. h a = None) \<Longrightarrow>
   \<exists>r h' b'. copy thr (h, b) (rootp t) = Some (r, h', b')
       \<and> b \<le> b' \<and> b' \<le> b + size t
       \<and> (\<forall>a<b. h' a = h a) \<and> (\<forall>a\<ge>b'. h' a = None)
       \<and> (r = Inl alloc_failure \<and> (\<exists>a\<ge>b. a < b + size t \<and> thr a)
          \<or> r = Inr (rootp (relabel b t)) \<and> b' = b + size t \<and> owns h' (relabel b t))"
proof (induction t arbitrary: h b)
  case Tip
  then show ?case by (simp add: copy.simps)
next
  case (Br l a x k r)
  let ?t = "Br l a x k r"
  let ?n = "\<lparr>data = x, left = rootp l, right = rootp r, npl = k\<rparr>"
  let ?h0 = "h(b \<mapsto> new_Node x)"
  let ?l' = "relabel (b + 1) l"
  let ?b1 = "b + 1 + size l"
  let ?r' = "relabel ?b1 r"
  from Br.prems have n: "h a = Some ?n" by simp
  have lt: "\<And>a'. a' \<in> set (addrs ?t) \<Longrightarrow> a' < b"
    using owns_live [OF Br.prems(1)] Br.prems(2) by (meson not_le)
  have ab: "a < b" using lt by simp
  from Br.prems have oll: "owns h l" and orr: "owns h r" by simp_all
  show ?case
  proof (cases "thr b")
    case True
    have "copy thr (h, b) (Some a) = Some (Inl alloc_failure, h, b + 1)"
      using True by (subst copy.simps) (simp add: n Let_def)
    moreover have "\<forall>a\<ge>b + 1. h a = None" using Br.prems(2) by simp
    moreover have "\<exists>a\<ge>b. a < b + size ?t \<and> thr a" using True by (intro exI [of _ b]) simp
    ultimately show ?thesis by simp
  next
    case nothr: False
    have o0: "owns ?h0 l" by (rule owns_frame [OF oll]) (use lt in auto)
    have "\<forall>a\<ge>b + 1. ?h0 a = None" using Br.prems by simp
    from Br.IH(1) [OF o0 this] obtain r1 h1 b1 where h1:
      "copy thr (?h0, b + 1) (rootp l) = Some (r1, h1, b1)" "b + 1 \<le> b1" "b1 \<le> ?b1"
      "\<forall>a<b + 1. h1 a = ?h0 a" "\<forall>a\<ge>b1. h1 a = None"
      "r1 = Inl alloc_failure \<and> (\<exists>a\<ge>b + 1. a < ?b1 \<and> thr a)
         \<or> r1 = Inr (rootp ?l') \<and> b1 = ?b1 \<and> owns h1 ?l'" by blast
    have h1b: "h1 b = Some (new_Node x)" using h1(4) by simp
    have h1old: "h1 a' = h a'" if "a' < b" for a'
    proof -
      from that have "a' < b + 1" "a' \<noteq> b" by simp_all
      then show ?thesis using h1(4) by auto
    qed
    have h1a: "h1 a = Some ?n" using h1old [OF ab] n by simp
    from h1(6) show ?thesis
    proof
      assume f: "r1 = Inl alloc_failure \<and> (\<exists>a\<ge>b + 1. a < ?b1 \<and> thr a)"
      then have "copy thr (h, b) (Some a) = Some (Inl alloc_failure, h1, b1)"
        using h1(1) nothr ab by (subst copy.simps) (simp add: n Let_def)
      moreover from f obtain a' where "a' \<ge> b + 1" "a' < ?b1" "thr a'" by blast
      then have "\<exists>a\<ge>b. a < b + size ?t \<and> thr a" by (intro exI [of _ a']) simp
      moreover have "\<forall>a<b. h1 a = h a" using h1old by blast
      ultimately show ?thesis using h1(2,3,5) by simp
    next
      assume g: "r1 = Inr (rootp ?l') \<and> b1 = ?b1 \<and> owns h1 ?l'"
      then have c1: "copy thr (?h0, b + 1) (rootp l) = Some (Inr (rootp ?l'), h1, ?b1)"
        and ol1: "owns h1 ?l'" and fr1: "\<forall>a\<ge>?b1. h1 a = None" using h1(1,5) by simp_all
      let ?h1' = "h1(b \<mapsto> (new_Node x)\<lparr>left := rootp ?l'\<rparr>)"
      have o1: "owns ?h1' r" by (rule owns_frame [OF orr]) (use lt h1old in fastforce)
      have "\<forall>a\<ge>?b1. ?h1' a = None" using fr1 by simp
      from Br.IH(2) [OF o1 this] obtain r2 h2 b2 where h2:
        "copy thr (?h1', ?b1) (rootp r) = Some (r2, h2, b2)" "?b1 \<le> b2" "b2 \<le> ?b1 + size r"
        "\<forall>a<?b1. h2 a = ?h1' a" "\<forall>a\<ge>b2. h2 a = None"
        "r2 = Inl alloc_failure \<and> (\<exists>a\<ge>?b1. a < ?b1 + size r \<and> thr a)
           \<or> r2 = Inr (rootp ?r') \<and> b2 = ?b1 + size r \<and> owns h2 ?r'" by blast
      have h2old: "h2 a' = ?h1' a'" if "a' < ?b1" for a' using h2(4) that by blast
      have h2b: "h2 b = Some ((new_Node x)\<lparr>left := rootp ?l'\<rparr>)" using h2old [of b] by simp
      have h2a: "h2 a = Some ?n" using h2old [of a] h1a ab by simp
      have old2: "\<forall>a<b. h2 a = h a" using h2old h1old by auto
      from h2(6) show ?thesis
      proof
        assume f: "r2 = Inl alloc_failure \<and> (\<exists>a\<ge>?b1. a < ?b1 + size r \<and> thr a)"
        then have "copy thr (h, b) (Some a) = Some (Inl alloc_failure, h2, b2)"
          using c1 h2(1) nothr ab by (subst copy.simps) (simp add: n h1b h1a Let_def)
        moreover from f obtain a' where "a' \<ge> ?b1" "a' < ?b1 + size r" "thr a'" by blast
        then have "\<exists>a\<ge>b. a < b + size ?t \<and> thr a" by (intro exI [of _ a']) simp
        ultimately show ?thesis using h2(2,3,5) old2 by simp
      next
        assume g2: "r2 = Inr (rootp ?r') \<and> b2 = ?b1 + size r \<and> owns h2 ?r'"
        then have c2: "copy thr (?h1', ?b1) (rootp r) = Some (Inr (rootp ?r'), h2, ?b1 + size r)"
          and or2: "owns h2 ?r'" and fr2: "\<forall>a\<ge>?b1 + size r. h2 a = None" using h2(1,5) by simp_all
        let ?h3 = "h2(b \<mapsto> (new_Node x)\<lparr>left := rootp ?l', right := rootp ?r', npl := k\<rparr>)"
        have cp: "copy thr (h, b) (Some a) = Some (Inr (Some b), ?h3, ?b1 + size r)"
          using c1 c2 nothr ab by (subst copy.simps) (simp add: n h1b h1a h2b h2a Let_def)
        have ol: "owns ?h3 ?l'"
          by (rule owns_frame [OF ol1]) (use h2old in \<open>auto simp: addrs_relabel\<close>)
        have or: "owns ?h3 ?r'"
          by (rule owns_frame [OF or2]) (auto simp: addrs_relabel)
        have "owns ?h3 (relabel b ?t)" using ol or by (simp add: new_Node_def)
        moreover have "\<forall>a<b. ?h3 a = h a" using old2 by auto
        moreover have "\<forall>a\<ge>b + size ?t. ?h3 a = None" using fr2 by simp
        ultimately show ?thesis using cp by (simp add: new_Node_def)
      qed
    qed
  qed
qed

lemma copy_refines:
  assumes "owns h t" and "\<forall>a\<ge>b. h a = None" and "\<forall>a\<ge>b. \<not> thr a"
  shows "\<exists>h'. copy thr (h, b) (rootp t) = Some (Inr (rootp (relabel b t)), h', b + size t)
       \<and> owns h' (relabel b t)
       \<and> (\<forall>a<b. h' a = h a) \<and> (\<forall>a\<ge>b + size t. h' a = None)"
  using copy_steps [OF assms(1,2), of thr] assms(3) by auto


subsection \<open>What each public operation does to a queue that holds a tree\<close>

lemma holdsE:
  assumes "holds s q t"
  obtains Q where "queues s q = Some Q" "root Q = rootp t" "sz Q = size t"
    "owns (nodes s) t" "distinct (addrs t)" "cmp_of s q = comp Q"
  using assms by (auto simp: holds_def cmp_of_def split: option.splits)

lemma holds_frame:
  assumes "holds s q t" and "queues s' q = queues s q"
    and "\<forall>a \<in> set (addrs t). nodes s' a = nodes s a"
  shows "holds s' q t"
proof -
  from assms(1) obtain Q where Q: "queues s q = Some Q" "root Q = rootp t" "sz Q = size t"
    "owns (nodes s) t" "distinct (addrs t)" by (rule holdsE)
  have "owns (nodes s') t" by (rule owns_frame [OF Q(4) assms(3)])
  then show ?thesis using Q assms(2) by (simp add: holds_def)
qed

lemma holds_unique: "holds s q t \<Longrightarrow> holds s q t' \<Longrightarrow> t = t'"
  by (auto simp: holds_def split: option.splits intro: owns_unique)

lemma alloc_ok_free: "alloc_ok s \<Longrightarrow> alloc_free s"
  by (simp add: alloc_ok_def)

lemma alloc_ok_step:
  assumes "alloc_ok s" and "alloc_free s'" and "new_throws s' = new_throws s"
    and "next_node s \<le> next_node s'"
  shows "alloc_ok s'"
  using assms by (auto simp: alloc_ok_def)

lemma holds_below_free:
  assumes "alloc_free s" and "holds s q t" and "a \<in> set (addrs t)"
  shows "a < next_node s"
proof -
  from assms(2) have "owns (nodes s) t" by (rule holdsE)
  from owns_live [OF this assms(3)] assms(1) show ?thesis
    unfolding alloc_free_def by (meson not_le)
qed

lemma holds_below:
  assumes "alloc_ok s" and "holds s q t" and "a \<in> set (addrs t)"
  shows "a < next_node s"
  using holds_below_free [OF alloc_ok_free [OF assms(1)] assms(2,3)] .

lemma size_Tip_iff: "size t = 0 \<longleftrightarrow> t = Tip"
  by (cases t) auto

lemma top_holds:
  "holds s q t \<Longrightarrow> top s q = (case t of Tip \<Rightarrow> Inl container_is_empty | Br l a x k r \<Rightarrow> Inr x)"
  by (cases t) (auto simp: top_def empty_def holds_def split: option.splits)

lemma size_holds: "holds s q t \<Longrightarrow> size_pq s q = Inr (size t)"
  by (auto simp: size_pq_def holds_def split: option.splits)

lemma empty_holds: "holds s q t \<Longrightarrow> empty s q = Inr (t = Tip)"
  by (auto simp: empty_def holds_def size_Tip_iff split: option.splits)

lemma push_free_steps:
  assumes al: "alloc_free s" and nt: "\<not> new_throws s (next_node s)" and ho: "holds s q t"
  shows "case mergeT (cmp_of s q) t (Br Tip (next_node s) e 1 Tip) of
           None \<Rightarrow> push s q e = Some (Inl comparator_failure, s\<lparr>next_node := next_node s + 1\<rparr>)
         | Some t' \<Rightarrow> (\<exists>s'. push s q e = Some (Inr (), s') \<and> holds s' q t'
              \<and> alloc_free s' \<and> new_throws s' = new_throws s
              \<and> next_node s' = next_node s + 1
              \<and> cmp_of s' q = cmp_of s q
              \<and> (\<forall>q'. q' \<noteq> q \<longrightarrow> queues s' q' = queues s q')
              \<and> (\<forall>a. a \<notin> set (addrs t) \<longrightarrow> a \<noteq> next_node s \<longrightarrow> nodes s' a = nodes s a))"
proof -
  let ?b = "next_node s"
  let ?leaf = "Br Tip ?b e 1 Tip"
  let ?h1 = "(nodes s)(?b \<mapsto> new_Node e)"
  let ?s1 = "s\<lparr>nodes := ?h1, next_node := ?b + 1\<rparr>"
  from ho obtain Q where Q: "queues s q = Some Q" "root Q = rootp t" "sz Q = size t"
    "owns (nodes s) t" "distinct (addrs t)" "cmp_of s q = comp Q" by (rule holdsE)
  have fresh: "?b \<notin> set (addrs t)" using holds_below_free [OF al ho] by blast
  have hb: "nodes s ?b = None" using al by (simp add: alloc_free_def)
  have o1: "owns ?h1 t" by (rule owns_frame [OF Q(4)]) (use fresh in auto)
  have o2: "owns ?h1 ?leaf" by (simp add: new_Node_def)
  have d: "distinct (addrs t @ addrs ?leaf)" using Q(5) fresh by simp
  note mr = merge_refines [OF o1 o2 d, of "comp Q"]
  show ?thesis
  proof (cases "mergeT (comp Q) t ?leaf")
    case None
    with mr have m: "merge (comp Q) ?h1 (rootp t) (rootp ?leaf) = Some (Inl comparator_failure, ?h1)"
      by simp
    have "?h1(?b := None) = nodes s" using hb by (auto simp: fun_eq_iff)
    then have "push s q e = Some (Inl comparator_failure, s\<lparr>next_node := ?b + 1\<rparr>)"
      using m Q(1,2) nt by (simp add: push_def Let_def delete_node_def)
    then show ?thesis using None Q(6) by simp
  next
    case (Some t')
    with mr obtain h' where h': "merge (comp Q) ?h1 (rootp t) (rootp ?leaf) = Some (Inr (rootp t'), h')"
      "owns h' t'" "\<forall>a. a \<notin> set (addrs t @ addrs ?leaf) \<longrightarrow> h' a = ?h1 a" by auto
    let ?s' = "?s1\<lparr>nodes := h', queues := (queues ?s1)(q \<mapsto> Q\<lparr>root := rootp t', sz := sz Q + 1\<rparr>)\<rparr>"
    have p: "push s q e = Some (Inr (), ?s')" using h'(1) Q(1,2) nt by (simp add: push_def Let_def)
    have "size t' = size t + 1" using size_mergeT [OF Some] by simp
    moreover have "distinct (addrs t')" by (rule distinct_mergeT [OF Some d])
    ultimately have "holds ?s' q t'" using h'(2) Q(3) by (simp add: holds_def)
    moreover have "alloc_free ?s'"
    proof -
      have "h' a = None" if "a \<ge> ?b + 1" for a
      proof -
        have "a \<notin> set (addrs t)" using holds_below_free [OF al ho, of a] that by auto
        then have "h' a = nodes s a" using h'(3) that by simp
        then show ?thesis using al that by (simp add: alloc_free_def)
      qed
      then show ?thesis by (simp add: alloc_free_def)
    qed
    moreover have "\<forall>a. a \<notin> set (addrs t) \<longrightarrow> a \<noteq> ?b \<longrightarrow> nodes ?s' a = nodes s a"
      using h'(3) by simp
    moreover have "cmp_of ?s' q = cmp_of s q" using Q(1) by (simp add: cmp_of_def)
    ultimately show ?thesis using Some Q(6) p by simp
  qed
qed

lemma push_alloc_fails:
  "new_throws s (next_node s) \<Longrightarrow>
   push s q e = Some (Inl alloc_failure, s\<lparr>next_node := next_node s + 1\<rparr>)"
  by (simp add: push_def Let_def)

lemma push_steps:
  assumes al: "alloc_ok s" and ho: "holds s q t"
  shows "case mergeT (cmp_of s q) t (Br Tip (next_node s) e 1 Tip) of
           None \<Rightarrow> push s q e = Some (Inl comparator_failure, s\<lparr>next_node := next_node s + 1\<rparr>)
         | Some t' \<Rightarrow> (\<exists>s'. push s q e = Some (Inr (), s') \<and> holds s' q t'
              \<and> alloc_ok s' \<and> next_node s' = next_node s + 1
              \<and> cmp_of s' q = cmp_of s q
              \<and> (\<forall>q'. q' \<noteq> q \<longrightarrow> queues s' q' = queues s q')
              \<and> (\<forall>a. a \<notin> set (addrs t) \<longrightarrow> a \<noteq> next_node s \<longrightarrow> nodes s' a = nodes s a))"
proof -
  from al have af: "alloc_free s" and nt: "\<not> new_throws s (next_node s)"
    by (simp_all add: alloc_ok_def)
  note st = push_free_steps [OF af nt ho, of e]
  show ?thesis
  proof (cases "mergeT (cmp_of s q) t (Br Tip (next_node s) e 1 Tip)")
    case None
    with st show ?thesis by simp
  next
    case (Some t')
    with st obtain s' where s': "push s q e = Some (Inr (), s')" "holds s' q t'"
      "alloc_free s'" "new_throws s' = new_throws s" "next_node s' = next_node s + 1"
      "cmp_of s' q = cmp_of s q" "\<forall>q'. q' \<noteq> q \<longrightarrow> queues s' q' = queues s q'"
      "\<forall>a. a \<notin> set (addrs t) \<longrightarrow> a \<noteq> next_node s \<longrightarrow> nodes s' a = nodes s a" by auto
    have "alloc_ok s'" by (rule alloc_ok_step [OF al s'(3,4)]) (simp add: s'(5))
    then show ?thesis using Some s' by auto
  qed
qed

lemma construct_steps:
  assumes "alloc_ok s" and "queues s q = None"
  shows "\<exists>s'. construct s q c = (Inr (), s') \<and> holds s' q Tip \<and> alloc_ok s'
           \<and> cmp_of s' q = c \<and> nodes s' = nodes s
           \<and> (\<forall>q'. q' \<noteq> q \<longrightarrow> queues s' q' = queues s q')"
  using assms by (simp add: construct_def holds_def alloc_ok_def alloc_free_def cmp_of_def)

lemma pop_steps:
  assumes ho: "holds s q (Br l a x k r)"
  shows "case mergeT (cmp_of s q) l r of
           None \<Rightarrow> pop s q = Some (Inl comparator_failure, s)
         | Some m \<Rightarrow> (\<exists>s'. pop s q = Some (Inr (), s') \<and> holds s' q m
              \<and> next_node s' = next_node s
              \<and> cmp_of s' q = cmp_of s q
              \<and> (\<forall>q'. q' \<noteq> q \<longrightarrow> queues s' q' = queues s q')
              \<and> (\<forall>b. b \<notin> set (addrs (Br l a x k r)) \<longrightarrow> nodes s' b = nodes s b)
              \<and> new_throws s' = new_throws s
              \<and> (alloc_free s \<longrightarrow> alloc_free s')
              \<and> (alloc_ok s \<longrightarrow> alloc_ok s'))"
proof -
  let ?t = "Br l a x k r"
  let ?h = "nodes s"
  from ho obtain Q where Q: "queues s q = Some Q" "root Q = rootp ?t" "sz Q = size ?t"
    "owns ?h ?t" "distinct (addrs ?t)" "cmp_of s q = comp Q" by (rule holdsE)
  from Q(4) have n: "?h a = Some \<lparr>data = x, left = rootp l, right = rootp r, npl = k\<rparr>"
    and ol: "owns ?h l" and or: "owns ?h r" by simp_all
  from Q(5) have d: "distinct (addrs l @ addrs r)" by simp
  note mr = merge_refines [OF ol or d, of "comp Q"]
  show ?thesis
  proof (cases "mergeT (comp Q) l r")
    case None
    with mr have "merge (comp Q) ?h (rootp l) (rootp r) = Some (Inl comparator_failure, ?h)" by simp
    then have "pop s q = Some (Inl comparator_failure, s)"
      using Q(1,2,3) n by (simp add: pop_def empty_def)
    then show ?thesis using None Q(6) by simp
  next
    case (Some m)
    with mr obtain h' where h': "merge (comp Q) ?h (rootp l) (rootp r) = Some (Inr (rootp m), h')"
      "owns h' m" "\<forall>b. b \<notin> set (addrs l @ addrs r) \<longrightarrow> h' b = ?h b" by auto
    have am: "set (addrs m) = set (addrs l) \<union> set (addrs r)" by (rule set_addrs_mergeT [OF Some])
    have an: "a \<notin> set (addrs l @ addrs r)" using Q(5) by simp
    then have h'a: "h' a = ?h a" using h'(3) by blast
    let ?s' = "s\<lparr>nodes := h'(a := None), queues := (queues s)(q \<mapsto> Q\<lparr>root := rootp m, sz := sz Q - 1\<rparr>)\<rparr>"
    have p: "pop s q = Some (Inr (), ?s')"
      using h'(1) h'a Q(1,2,3) n by (simp add: pop_def empty_def delete_node_def)
    have "owns (h'(a := None)) m" by (rule owns_frame [OF h'(2)]) (use an am in auto)
    moreover have "size m = size l + size r" by (rule size_mergeT [OF Some])
    moreover have "distinct (addrs m)" by (rule distinct_mergeT [OF Some d])
    ultimately have "holds ?s' q m" using Q(3) by (simp add: holds_def)
    moreover have "\<forall>b. b \<notin> set (addrs ?t) \<longrightarrow> nodes ?s' b = ?h b" using h'(3) by simp
    moreover have fr: "alloc_free s \<longrightarrow> alloc_free ?s'"
    proof
      assume al: "alloc_free s"
      have "(h'(a := None)) b = None" if "b \<ge> next_node s" for b
      proof (cases "b \<in> set (addrs ?t)")
        case True
        then show ?thesis using holds_below_free [OF al ho True] that by simp
      next
        case False
        then show ?thesis using h'(3) al that by (simp add: alloc_free_def)
      qed
      then show "alloc_free ?s'" by (simp add: alloc_free_def)
    qed
    moreover have "alloc_ok s \<longrightarrow> alloc_ok ?s'"
      using fr by (simp add: alloc_ok_def)
    moreover have "cmp_of ?s' q = cmp_of s q" using Q(1) by (simp add: cmp_of_def)
    ultimately show ?thesis using Some Q(6) p by simp
  qed
qed

lemma merge_pq_steps:
  assumes ne: "q \<noteq> p" and h1: "holds s q t1" and h2: "holds s p t2"
    and d: "distinct (addrs t1 @ addrs t2)"
  shows "case mergeT (cmp_of s q) t1 t2 of
           None \<Rightarrow> merge_pq s q p = Some (Inl comparator_failure, s)
         | Some t \<Rightarrow> (\<exists>s'. merge_pq s q p = Some (Inr (), s') \<and> holds s' q t \<and> holds s' p Tip
              \<and> next_node s' = next_node s
              \<and> cmp_of s' q = cmp_of s q \<and> cmp_of s' p = cmp_of s p
              \<and> (\<forall>q'. q' \<noteq> q \<longrightarrow> q' \<noteq> p \<longrightarrow> queues s' q' = queues s q')
              \<and> (\<forall>b. b \<notin> set (addrs t1 @ addrs t2) \<longrightarrow> nodes s' b = nodes s b)
              \<and> new_throws s' = new_throws s
              \<and> (alloc_free s \<longrightarrow> alloc_free s')
              \<and> (alloc_ok s \<longrightarrow> alloc_ok s'))"
proof -
  let ?h = "nodes s"
  from h1 obtain Q where Q: "queues s q = Some Q" "root Q = rootp t1" "sz Q = size t1"
    "owns ?h t1" "distinct (addrs t1)" "cmp_of s q = comp Q" by (rule holdsE)
  from h2 obtain P where P: "queues s p = Some P" "root P = rootp t2" "sz P = size t2"
    "owns ?h t2" "distinct (addrs t2)" "cmp_of s p = comp P" by (rule holdsE)
  note mr = merge_refines [OF Q(4) P(4) d, of "comp Q"]
  show ?thesis
  proof (cases "mergeT (comp Q) t1 t2")
    case None
    with mr have "merge (comp Q) ?h (rootp t1) (rootp t2) = Some (Inl comparator_failure, ?h)" by simp
    then have "merge_pq s q p = Some (Inl comparator_failure, s)"
      using Q(1,2) P(1,2) ne by (simp add: merge_pq_def)
    then show ?thesis using None Q(6) by simp
  next
    case (Some t)
    with mr obtain h' where h': "merge (comp Q) ?h (rootp t1) (rootp t2) = Some (Inr (rootp t), h')"
      "owns h' t" "\<forall>b. b \<notin> set (addrs t1 @ addrs t2) \<longrightarrow> h' b = ?h b" by auto
    let ?s' = "s\<lparr>nodes := h', queues := (queues s)(q \<mapsto> Q\<lparr>root := rootp t, sz := sz Q + sz P\<rparr>,
                                                     p \<mapsto> P\<lparr>root := None, sz := 0\<rparr>)\<rparr>"
    have m: "merge_pq s q p = Some (Inr (), ?s')"
      using h'(1) Q(1,2) P(1,2) ne by (simp add: merge_pq_def)
    have "size t = size t1 + size t2" by (rule size_mergeT [OF Some])
    moreover have "distinct (addrs t)" by (rule distinct_mergeT [OF Some d])
    ultimately have "holds ?s' q t" using h'(2) Q(3) P(3) ne by (simp add: holds_def)
    moreover have "holds ?s' p Tip" by (simp add: holds_def)
    moreover have fr: "alloc_free s \<longrightarrow> alloc_free ?s'"
    proof
      assume al: "alloc_free s"
      have "h' b = None" if "b \<ge> next_node s" for b
      proof -
        have "b \<notin> set (addrs t1 @ addrs t2)"
          using holds_below_free [OF al h1, of b] holds_below_free [OF al h2, of b] that by auto
        then show ?thesis using h'(3) al that by (simp add: alloc_free_def)
      qed
      then show "alloc_free ?s'" by (simp add: alloc_free_def)
    qed
    moreover have "alloc_ok s \<longrightarrow> alloc_ok ?s'"
      using fr by (simp add: alloc_ok_def)
    moreover have "cmp_of ?s' q = cmp_of s q" "cmp_of ?s' p = cmp_of s p"
      using Q(1) P(1) ne by (simp_all add: cmp_of_def)
    ultimately show ?thesis using Some Q(6) m h'(3) by simp
  qed
qed

lemma distinct_relabel: "distinct (addrs (relabel b t))"
  by (simp add: addrs_relabel)

lemma copy_construct_steps:
  assumes al: "alloc_ok s" and ho: "holds s p t" and fr: "queues s q = None"
  shows "\<exists>s'. copy_construct s q p = Some (Inr (), s')
           \<and> holds s' q (relabel (next_node s) t) \<and> holds s' p t
           \<and> alloc_ok s' \<and> next_node s' = next_node s + size t
           \<and> cmp_of s' q = cmp_of s p
           \<and> (\<forall>q'. q' \<noteq> q \<longrightarrow> queues s' q' = queues s q')
           \<and> (\<forall>b<next_node s. nodes s' b = nodes s b)"
proof -
  let ?h = "nodes s" and ?b = "next_node s"
  from ho obtain P where P: "queues s p = Some P" "root P = rootp t" "sz P = size t"
    "owns ?h t" "distinct (addrs t)" "cmp_of s p = comp P" by (rule holdsE)
  have ne: "q \<noteq> p" using fr P(1) by auto
  from al have "\<forall>a\<ge>?b. ?h a = None" and nt: "\<forall>a\<ge>?b. \<not> new_throws s a"
    by (simp_all add: alloc_ok_def alloc_free_def)
  from copy_refines [OF P(4) this] obtain h' where h':
    "copy (new_throws s) (?h, ?b) (rootp t) = Some (Inr (rootp (relabel ?b t)), h', ?b + size t)"
    "owns h' (relabel ?b t)" "\<forall>a<?b. h' a = ?h a" "\<forall>a\<ge>?b + size t. h' a = None" by blast
  let ?s' = "s\<lparr>nodes := h', next_node := ?b + size t,
               queues := (queues s)(q \<mapsto> \<lparr>root = rootp (relabel ?b t), sz = sz P, comp = comp P\<rparr>)\<rparr>"
  have c: "copy_construct s q p = Some (Inr (), ?s')"
    using h'(1) P(1,2) fr by (simp add: copy_construct_def)
  have "holds ?s' q (relabel ?b t)" using h'(2) P(3) by (simp add: holds_def distinct_relabel)
  moreover have "owns h' t" by (rule owns_frame [OF P(4)]) (use holds_below [OF al ho] h'(3) in auto)
  then have "holds ?s' p t" using P ne by (simp add: holds_def)
  moreover have "alloc_ok ?s'" using h'(4) nt by (simp add: alloc_ok_def alloc_free_def)
  moreover have "cmp_of ?s' q = cmp_of s p" using P(6) by (simp add: cmp_of_def)
  ultimately show ?thesis using c h'(3) by simp
qed

lemma drain_refines:
  "holds s q t \<Longrightarrow> cmp_of s q = c \<Longrightarrow>
   (case drainT c t of
      None \<Rightarrow> (\<exists>s'. drain s q = Some (Inl comparator_failure, s'))
    | Some ds \<Rightarrow>
       (\<exists>s'. drain s q = Some (Inr ds, s') \<and> holds s' q Tip \<and> next_node s' = next_node s
          \<and> cmp_of s' q = c
          \<and> (\<forall>q'. q' \<noteq> q \<longrightarrow> queues s' q' = queues s q')
          \<and> (\<forall>b. b \<notin> set (addrs t) \<longrightarrow> nodes s' b = nodes s b)
          \<and> (alloc_ok s \<longrightarrow> alloc_ok s')))"
proof (induction c t arbitrary: s rule: drainT.induct)
  case (1 c)
  then have "drain s q = Some (Inr [], s)"
    by (subst drain.simps) (simp add: empty_holds)
  then show ?case using 1 by simp
next
  case (2 c l a x k r)
  let ?t = "Br l a x k r"
  note e = empty_holds [OF "2.prems"(1)] and tp = top_holds [OF "2.prems"(1)]
  show ?case
  proof (cases "mergeT c l r")
    case None
    with pop_steps [OF "2.prems"(1)] "2.prems"(2)
    have "pop s q = Some (Inl comparator_failure, s)" by simp
    then have "drain s q = Some (Inl comparator_failure, s)"
      by (subst drain.simps) (simp add: e tp)
    then show ?thesis using None by simp
  next
    case (Some m)
    with pop_steps [OF "2.prems"(1)] "2.prems"(2) obtain s1 where s1:
      "pop s q = Some (Inr (), s1)" "holds s1 q m" "next_node s1 = next_node s"
      "cmp_of s1 q = c" "\<forall>q'. q' \<noteq> q \<longrightarrow> queues s1 q' = queues s q'"
      "\<forall>b. b \<notin> set (addrs ?t) \<longrightarrow> nodes s1 b = nodes s b" "alloc_ok s \<longrightarrow> alloc_ok s1"
      by auto
    note sz = size_holds [OF s1(2)]
    note IH = "2.IH" [OF Some s1(2) s1(4)]
    show ?thesis
    proof (cases "drainT c m")
      case None
      with IH obtain s2 where "drain s1 q = Some (Inl comparator_failure, s2)" by auto
      then have "drain s q = Some (Inl comparator_failure, s2)"
        using s1(1) by (subst drain.simps) (simp add: e tp sz)
      then show ?thesis using None Some by simp
    next
      case (Some ds')
      with IH obtain s2 where s2:
        "drain s1 q = Some (Inr ds', s2)" "holds s2 q Tip" "next_node s2 = next_node s1"
        "cmp_of s2 q = c" "\<forall>q'. q' \<noteq> q \<longrightarrow> queues s2 q' = queues s1 q'"
        "\<forall>b. b \<notin> set (addrs m) \<longrightarrow> nodes s2 b = nodes s1 b" "alloc_ok s1 \<longrightarrow> alloc_ok s2"
        by auto
      have am: "set (addrs m) = set (addrs l) \<union> set (addrs r)"
        by (rule set_addrs_mergeT [OF \<open>mergeT c l r = Some m\<close>])
      have "drain s q = Some (Inr ((x, size m) # ds'), s2)"
        using s1(1) s2(1) by (subst drain.simps) (simp add: e tp sz)
      moreover have "\<forall>b. b \<notin> set (addrs ?t) \<longrightarrow> nodes s2 b = nodes s b"
        using s1(6) s2(6) am by auto
      ultimately show ?thesis using s1 s2 Some \<open>mergeT c l r = Some m\<close> by auto
    qed
  qed
qed

lemma shape_fixT: "shape (fixT l a x m) = fixT (shape l) () x (shape m)"
  by (cases l; cases m) (auto simp: fixT_def)

lemma mergeT_shape: "mergeT c (shape t1) (shape t2) = map_option shape (mergeT c t1 t2)"
proof (induction c t1 t2 rule: mergeT.induct)
  case (3 c l1 a1 x1 k1 r1 l2 a2 x2 k2 r2)
  show ?case
  proof (cases "c x1 x2")
    case None
    then show ?thesis by simp
  next
    case (Some lt)
    show ?thesis
    proof (cases lt)
      case True
      from "3.IH"(1) [OF Some True] show ?thesis
        using Some True by (cases "mergeT c r2 (Br l1 a1 x1 k1 r1)") (simp_all add: shape_fixT)
    next
      case False
      from "3.IH"(2) [OF Some False] show ?thesis
        using Some False by (cases "mergeT c r1 (Br l2 a2 x2 k2 r2)") (simp_all add: shape_fixT)
    qed
  qed
qed simp_all

lemma size_shape [simp]: "size (shape t) = size t"
  by (induction t) auto

lemma drainT_shape: "drainT c (shape t) = drainT c t"
proof (induction c t rule: drainT.induct)
  case (1 c)
  then show ?case by simp
next
  case (2 c l a x k r)
  show ?case
  proof (cases "mergeT c l r")
    case None
    then show ?thesis by (simp add: mergeT_shape)
  next
    case (Some m)
    from "2.IH" [OF Some] show ?thesis using Some by (simp add: mergeT_shape)
  qed
qed

lemma shape_relabel [simp]: "shape (relabel b t) = shape t"
  by (induction t arbitrary: b) auto

lemma rk_relabel [simp]: "rk (relabel b t) = rk t"
  by (cases t) auto

lemma leftist_relabel [simp]: "leftist (relabel b t) = leftist t"
  by (induction t arbitrary: b) auto

lemma elems_relabel [simp]: "elems (relabel b t) = elems t"
  by (induction t arbitrary: b) auto

lemma leftist_npl_bound: "leftist t \<Longrightarrow> 0 \<le> rk t \<and> 2 ^ nat (rk t) \<le> size t + 1"
proof (induction t)
  case Tip
  then show ?case by simp
next
  case (Br l a x k r)
  then have l: "0 \<le> rk l" "2 ^ nat (rk l) \<le> size l + 1"
    and r: "0 \<le> rk r" "2 ^ nat (rk r) \<le> size r + 1"
    and k: "k = rk r + 1" and le: "rk r \<le> rk l" by auto
  define A :: nat where "A = 2 ^ nat (rk l)"
  define B :: nat where "B = 2 ^ nat (rk r)"
  have "B \<le> A" unfolding A_def B_def using le r(1) by (intro power_increasing) auto
  moreover have "nat k = Suc (nat (rk r))" using k r(1) by simp
  then have "2 ^ nat k = 2 * B" by (simp add: B_def)
  moreover have "A \<le> size l + 1" "B \<le> size r + 1" using l r by (simp_all add: A_def B_def)
  moreover have "0 \<le> k" using k r(1) by simp
  ultimately show ?case by simp
qed

lemma assign_steps:
  assumes ne: "q \<noteq> p" and al: "alloc_ok s" and h1: "holds s q t1" and h2: "holds s p t2"
    and d: "set (addrs t1) \<inter> set (addrs t2) = {}"
  shows "\<exists>s'. assign s q p = Some (Inr (), s')
           \<and> holds s' q (relabel (next_node s) t2) \<and> holds s' p t2
           \<and> alloc_ok s' \<and> next_node s' = next_node s + size t2
           \<and> cmp_of s' q = cmp_of s p
           \<and> (\<forall>q'. q' \<noteq> q \<longrightarrow> queues s' q' = queues s q')
           \<and> (\<forall>b<next_node s. b \<notin> set (addrs t1) \<longrightarrow> nodes s' b = nodes s b)"
proof -
  let ?h = "nodes s" and ?b = "next_node s"
  from h1 obtain Q where Q: "queues s q = Some Q" "root Q = rootp t1" "sz Q = size t1"
    "owns ?h t1" "distinct (addrs t1)" "cmp_of s q = comp Q" by (rule holdsE)
  from h2 obtain P where P: "queues s p = Some P" "root P = rootp t2" "sz P = size t2"
    "owns ?h t2" "distinct (addrs t2)" "cmp_of s p = comp P" by (rule holdsE)
  let ?h1 = "release ?h (addrs t1)"
  have c1: "clear ?h (rootp t1) = Some (Inr (), ?h1)" by (rule clear_refines [OF Q(4,5)])
  have o1: "owns ?h1 t2" by (rule owns_frame [OF P(4)]) (use d in \<open>auto simp: release_def\<close>)
  from al have "\<forall>a\<ge>?b. ?h1 a = None" and nt: "\<forall>a\<ge>?b. \<not> new_throws s a"
    by (simp_all add: alloc_ok_def alloc_free_def release_def)
  from copy_refines [OF o1 this] obtain h' where h':
    "copy (new_throws s) (?h1, ?b) (rootp t2) = Some (Inr (rootp (relabel ?b t2)), h', ?b + size t2)"
    "owns h' (relabel ?b t2)" "\<forall>a<?b. h' a = ?h1 a" "\<forall>a\<ge>?b + size t2. h' a = None" by blast
  let ?s' = "s\<lparr>nodes := h', next_node := ?b + size t2,
               queues := (queues s)(q \<mapsto> \<lparr>root = rootp (relabel ?b t2), sz = sz P, comp = comp P\<rparr>)\<rparr>"
  have c: "assign s q p = Some (Inr (), ?s')"
    using c1 h'(1) Q(1,2) P(1,2) ne by (simp add: assign_def)
  have "holds ?s' q (relabel ?b t2)" using h'(2) P(3) by (simp add: holds_def distinct_relabel)
  moreover have "owns h' t2"
    by (rule owns_frame [OF o1]) (use holds_below [OF al h2] h'(3) in auto)
  then have "holds ?s' p t2" using P ne by (simp add: holds_def)
  moreover have "alloc_ok ?s'" using h'(4) nt by (simp add: alloc_ok_def alloc_free_def)
  moreover have "cmp_of ?s' q = cmp_of s p" using P(6) by (simp add: cmp_of_def)
  moreover have "\<forall>b<?b. b \<notin> set (addrs t1) \<longrightarrow> nodes ?s' b = ?h b"
    using h'(3) by (simp add: release_def)
  ultimately show ?thesis using c by simp
qed

lemma destroy_steps:
  assumes "holds s q t"
  shows "destroy s q = Some (Inr (), s\<lparr>nodes := release (nodes s) (addrs t), queues := (queues s)(q := None)\<rparr>)"
proof -
  from assms obtain Q where Q: "queues s q = Some Q" "root Q = rootp t"
    "owns (nodes s) t" "distinct (addrs t)" by (rule holdsE)
  from clear_refines [OF Q(3,4)] Q(1,2) show ?thesis by (simp add: destroy_def)
qed


subsection \<open>Errors that \<open>merge\<close> can return\<close>

lemma getNPL_error: "getNPL h p = Inl e \<Longrightarrow> e = invalid_access"
  by (auto simp: getNPL_def split: option.splits)

lemma updateNPL_error: "updateNPL h p = Inl e \<Longrightarrow> e = invalid_access"
  by (auto simp: updateNPL_def split: option.splits sum.splits dest: getNPL_error)

lemma relink_error: "relink h w m = Some (Inl e, h') \<Longrightarrow> e = invalid_access"
  unfolding relink_def
  by (auto simp: Let_def split: option.splits sum.splits dest: getNPL_error updateNPL_error)

lemma merge_not_empty_error:
  assumes "merge c h h1 h2 = Some res"
  shows "fst res \<noteq> Inl container_is_empty"
proof (rule merge.raw_induct [where P = "\<lambda>c h h1 h2 res. fst res \<noteq> Inl container_is_empty", OF _ assms], goal_cases)
  case (1 mrg c h h1 h2 res)
  have rec: "\<And>c h h1 h2 e h'. mrg c h h1 h2 = Some (Inl e, h') \<Longrightarrow> e \<noteq> container_is_empty"
    using 1(1) by fastforce
  note body = 1(2) [unfolded relink_def [symmetric]]
  show ?case
  proof (cases h1)
    case None
    then show ?thesis using body by auto
  next
    case a1: (Some a1)
    show ?thesis
    proof (cases h2)
      case None
      then show ?thesis using body a1 by auto
    next
      case a2: (Some a2)
      show ?thesis
      proof (cases "h a1")
        case None
        then show ?thesis using body a1 a2 by auto
      next
        case n1: (Some n1)
        show ?thesis
        proof (cases "h a2")
          case None
          then show ?thesis using body a1 a2 n1 by auto
        next
          case n2: (Some n2)
          show ?thesis
          proof (cases "c (data n1) (data n2)")
            case None
            then show ?thesis using body a1 a2 n1 n2 by auto
          next
            case (Some lt)
            from body obtain r h' where r: "mrg c h (right (if lt then n2 else n1)) (Some (if lt then a1 else a2)) = Some (r, h')"
              and res: "(case r of Inl e \<Rightarrow> Some (Inl e, h') | Inr m \<Rightarrow> relink h' (if lt then a2 else a1) m) = Some res"
              using a1 a2 n1 n2 Some by (auto simp: Let_def bind_eq_Some_conv)
            show ?thesis
            proof (cases r)
              case (Inl e)
              then show ?thesis using rec r res by auto
            next
              case (Inr m)
              then show ?thesis using res relink_error [of h' _ m _ "snd res"]
                by (cases res) (auto simp: )
            qed
          qed
        qed
      qed
    qed
  qed
qed

subsection \<open>Sequences of operations\<close>

lemma leaf_facts [simp]:
  "leftist (Br Tip b e 1 Tip)" "heap_ordered lt (Br Tip b e 1 Tip)"
  by simp_all

lemma push_total:
  assumes "alloc_ok s" and "holds s q t" and "cmp_of s q = total_cmp lt"
  shows "\<exists>s' t'. push s q e = Some (Inr (), s') \<and> holds s' q t' \<and> alloc_ok s'
           \<and> mergeT (total_cmp lt) t (Br Tip (next_node s) e 1 Tip) = Some t'
           \<and> elems t' = add_mset e (elems t) \<and> size t' = size t + 1
           \<and> cmp_of s' q = total_cmp lt \<and> next_node s' = next_node s + 1
           \<and> (\<forall>q'. q' \<noteq> q \<longrightarrow> queues s' q' = queues s q')
           \<and> (\<forall>a. a \<notin> set (addrs t) \<longrightarrow> a \<noteq> next_node s \<longrightarrow> nodes s' a = nodes s a)"
proof -
  obtain t' where t': "mergeT (total_cmp lt) t (Br Tip (next_node s) e 1 Tip) = Some t'"
    using mergeT_total by blast
  from push_steps [OF assms(1,2), of e] t' assms(3) obtain s' where
    "push s q e = Some (Inr (), s')" "holds s' q t'" "alloc_ok s'" "next_node s' = next_node s + 1"
    "cmp_of s' q = cmp_of s q" "\<forall>q'. q' \<noteq> q \<longrightarrow> queues s' q' = queues s q'"
    "\<forall>a. a \<notin> set (addrs t) \<longrightarrow> a \<noteq> next_node s \<longrightarrow> nodes s' a = nodes s a"
    by auto
  then show ?thesis using t' assms(3) elems_mergeT [OF t'] size_mergeT [OF t'] by auto
qed

lemma push_all_total:
  assumes "strict_weak_order lt"
  shows "alloc_ok s \<Longrightarrow> holds s q t \<Longrightarrow> cmp_of s q = total_cmp lt \<Longrightarrow> heap_ordered lt t \<Longrightarrow>
    \<exists>s' t'. push_all s q xs = Some (Inr (), s') \<and> holds s' q t' \<and> alloc_ok s'
       \<and> elems t' = elems t + mset xs \<and> heap_ordered lt t' \<and> cmp_of s' q = total_cmp lt
       \<and> (leftist t \<longrightarrow> leftist t')"
proof (induction xs arbitrary: s t)
  case Nil
  then show ?case by auto
next
  case (Cons x xs)
  from push_total [OF Cons.prems(1,2,3), of x] obtain s1 t1 where s1:
    "push s q x = Some (Inr (), s1)" "holds s1 q t1" "alloc_ok s1"
    "mergeT (total_cmp lt) t (Br Tip (next_node s) x 1 Tip) = Some t1"
    "elems t1 = add_mset x (elems t)" "cmp_of s1 q = total_cmp lt" by blast
  have h1: "heap_ordered lt t1"
    by (rule heap_ordered_mergeT [OF s1(4) assms Cons.prems(4)]) simp
  have l1: "leftist t \<longrightarrow> leftist t1" using leftist_mergeT [OF s1(4)] by simp
  from Cons.IH [OF s1(3,2,6) h1] obtain s' t' where
    "push_all s1 q xs = Some (Inr (), s')" "holds s' q t'" "alloc_ok s'"
    "elems t' = elems t1 + mset xs" "heap_ordered lt t'" "cmp_of s' q = total_cmp lt"
    "leftist t1 \<longrightarrow> leftist t'" by blast
  then show ?case using s1(1,5) l1 by auto
qed

lemma drain_result:
  assumes "holds s q t"
  shows "map_option fst (drain s q)
           = Some (case drainT (cmp_of s q) t of None \<Rightarrow> Inl comparator_failure | Some ds \<Rightarrow> Inr ds)"
  using drain_refines [OF assms refl] by (auto split: option.splits)

lemma pop_Tip: "holds s q Tip \<Longrightarrow> pop s q = Some (Inl container_is_empty, s)"
  by (auto simp: pop_def empty_def holds_def split: option.splits)

text \<open>One mutation of \<open>q\<close> leaves every other queue that holds a disjoint tree as it was.\<close>

lemma mutation_frame:
  assumes al: "alloc_ok s" and hq: "holds s q tq" and hp: "holds s p t" and ne: "q \<noteq> p"
    and dj: "set (addrs tq) \<inter> set (addrs t) = {}"
  shows "\<exists>r s' tq'. (case m of Push e \<Rightarrow> push s q e | Pop \<Rightarrow> pop s q) = Some (r, s')
           \<and> alloc_ok s' \<and> holds s' q tq' \<and> holds s' p t
           \<and> set (addrs tq') \<inter> set (addrs t) = {}
           \<and> cmp_of s' p = cmp_of s p"
proof (cases m)
  case (Push e)
  let ?leaf = "Br Tip (next_node s) e 1 Tip"
  have fresh: "next_node s \<notin> set (addrs t)" using holds_below [OF al hp] by blast
  show ?thesis
  proof (cases "mergeT (cmp_of s q) tq ?leaf")
    case None
    let ?s' = "s\<lparr>next_node := next_node s + 1\<rparr>"
    from push_steps [OF al hq, of e] None
    have p: "push s q e = Some (Inl comparator_failure, ?s')" by simp
    have "alloc_ok ?s'" using al by (simp add: alloc_ok_def alloc_free_def)
    moreover have "holds ?s' q tq" by (rule holds_frame [OF hq]) simp_all
    moreover have "holds ?s' p t" by (rule holds_frame [OF hp]) simp_all
    moreover have "cmp_of ?s' p = cmp_of s p" by (simp add: cmp_of_def)
    ultimately show ?thesis using p dj Push by auto
  next
    case (Some tq')
    from push_steps [OF al hq, of e] Some obtain s' where s':
      "push s q e = Some (Inr (), s')" "holds s' q tq'" "alloc_ok s'"
      "\<forall>q'. q' \<noteq> q \<longrightarrow> queues s' q' = queues s q'"
      "\<forall>a. a \<notin> set (addrs tq) \<longrightarrow> a \<noteq> next_node s \<longrightarrow> nodes s' a = nodes s a" by auto
    have qp: "queues s' p = queues s p" using s'(4) ne by simp
    have "holds s' p t" by (rule holds_frame [OF hp qp]) (use s'(5) dj fresh in auto)
    moreover have "set (addrs tq') = set (addrs tq) \<union> {next_node s}"
      using set_addrs_mergeT [OF Some] by simp
    then have "set (addrs tq') \<inter> set (addrs t) = {}" using dj fresh by auto
    moreover have "cmp_of s' p = cmp_of s p" using qp by (simp add: cmp_of_def)
    ultimately show ?thesis using s'(1,2,3) Push by auto
  qed
next
  case Pop
  show ?thesis
  proof (cases tq)
    case Tip
    then have "pop s q = Some (Inl container_is_empty, s)" using hq by (simp add: pop_Tip)
    then show ?thesis using Pop al hq hp dj by auto
  next
    case (Br l a x k r)
    note hb = hq [unfolded Br]
    show ?thesis
    proof (cases "mergeT (cmp_of s q) l r")
      case None
      with pop_steps [OF hb] have "pop s q = Some (Inl comparator_failure, s)" by simp
      then show ?thesis using Pop al hq hp dj by auto
    next
      case (Some m')
      with pop_steps [OF hb] obtain s' where s':
        "pop s q = Some (Inr (), s')" "holds s' q m'"
        "\<forall>q'. q' \<noteq> q \<longrightarrow> queues s' q' = queues s q'"
        "\<forall>b. b \<notin> set (addrs (Br l a x k r)) \<longrightarrow> nodes s' b = nodes s b"
        "alloc_ok s \<longrightarrow> alloc_ok s'" by auto
      have qp: "queues s' p = queues s p" using s'(3) ne by simp
      have "holds s' p t" by (rule holds_frame [OF hp qp]) (use s'(4) dj Br in auto)
      moreover have "set (addrs m') \<subseteq> set (addrs tq)"
        using set_addrs_mergeT [OF Some] Br by auto
      then have "set (addrs m') \<inter> set (addrs t) = {}" using dj by auto
      moreover have "cmp_of s' p = cmp_of s p" using qp by (simp add: cmp_of_def)
      ultimately show ?thesis using s'(1,2,5) al Pop by auto
    qed
  qed
qed

lemma run_ops_frame:
  "alloc_ok s \<Longrightarrow> holds s q tq \<Longrightarrow> holds s p t \<Longrightarrow> q \<noteq> p \<Longrightarrow>
   set (addrs tq) \<inter> set (addrs t) = {} \<Longrightarrow>
   \<exists>s'. run_ops s q ms = Some s' \<and> holds s' p t \<and> cmp_of s' p = cmp_of s p"
proof (induction ms arbitrary: s tq)
  case Nil
  then show ?case by simp
next
  case (Cons m ms)
  from mutation_frame [OF Cons.prems, of m] obtain r s1 tq1 where s1:
    "(case m of Push e \<Rightarrow> push s q e | Pop \<Rightarrow> pop s q) = Some (r, s1)"
    "alloc_ok s1" "holds s1 q tq1" "holds s1 p t" "set (addrs tq1) \<inter> set (addrs t) = {}"
    "cmp_of s1 p = cmp_of s p" by blast
  from Cons.IH [OF s1(2,3,4) Cons.prems(4) s1(5)] obtain s' where
    "run_ops s1 q ms = Some s'" "holds s' p t" "cmp_of s' p = cmp_of s1 p" by blast
  then show ?case using s1(1,6) by simp
qed

subsection \<open>The operations that allocate, when an allocation may throw\<close>

lemma copy_construct_free:
  assumes af: "alloc_free s" and ho: "holds s p t" and fr: "queues s q = None"
  shows "\<exists>r s'. copy_construct s q p = Some (r, s')
           \<and> alloc_free s' \<and> new_throws s' = new_throws s \<and> next_node s \<le> next_node s'
           \<and> (\<forall>b<next_node s. nodes s' b = nodes s b)
           \<and> (r = Inl alloc_failure \<and> queues s' = queues s
              \<or> r = Inr () \<and> holds s' q (relabel (next_node s) t)
                 \<and> (\<forall>q'. q' \<noteq> q \<longrightarrow> queues s' q' = queues s q'))"
proof -
  let ?h = "nodes s" and ?b = "next_node s"
  from ho obtain P where P: "queues s p = Some P" "root P = rootp t" "sz P = size t"
    "owns ?h t" "distinct (addrs t)" by (rule holdsE)
  from af have "\<forall>a\<ge>?b. ?h a = None" by (simp add: alloc_free_def)
  from copy_steps [OF P(4) this, of "new_throws s"] obtain r h' b' where c:
    "copy (new_throws s) (?h, ?b) (rootp t) = Some (r, h', b')" "?b \<le> b'"
    "\<forall>a<?b. h' a = ?h a" "\<forall>a\<ge>b'. h' a = None"
    "r = Inl alloc_failure \<or> r = Inr (rootp (relabel ?b t)) \<and> b' = ?b + size t \<and> owns h' (relabel ?b t)"
    by blast
  from c(5) show ?thesis
  proof
    assume f: "r = Inl alloc_failure"
    let ?s' = "s\<lparr>nodes := h', next_node := b'\<rparr>"
    have "copy_construct s q p = Some (Inl alloc_failure, ?s')"
      using c(1) f P(1,2) fr by (simp add: copy_construct_def)
    moreover have "alloc_free ?s'" using c(4) by (simp add: alloc_free_def)
    ultimately show ?thesis using c(2,3) by simp
  next
    assume g: "r = Inr (rootp (relabel ?b t)) \<and> b' = ?b + size t \<and> owns h' (relabel ?b t)"
    let ?s' = "s\<lparr>nodes := h', next_node := b',
                 queues := (queues s)(q \<mapsto> \<lparr>root = rootp (relabel ?b t), sz = sz P, comp = comp P\<rparr>)\<rparr>"
    have "copy_construct s q p = Some (Inr (), ?s')"
      using c(1) g P(1,2) fr by (simp add: copy_construct_def)
    moreover have "alloc_free ?s'" using c(4) by (simp add: alloc_free_def)
    moreover have "holds ?s' q (relabel ?b t)"
      using g P(3) by (simp add: holds_def addrs_relabel)
    ultimately show ?thesis using c(2,3) by simp
  qed
qed

text \<open>
  Whatever makes \<open>push\<close> raise, the allocation or the comparator, the state is the one before
  the call except for the allocation counter.
\<close>

lemma push_failure_unchanged:
  assumes af: "alloc_free s" and ho: "holds s q t" and op: "push s q e = Some (Inl err, s')"
  shows "(err = alloc_failure \<or> err = comparator_failure)
       \<and> s' = s\<lparr>next_node := next_node s + 1\<rparr> \<and> holds s' q t"
proof -
  have h: "holds (s\<lparr>next_node := next_node s + 1\<rparr>) q t"
    by (rule holds_frame [OF ho]) simp_all
  show ?thesis
  proof (cases "new_throws s (next_node s)")
    case True
    with push_alloc_fails [of s q e] op h show ?thesis by simp
  next
    case False
    from push_free_steps [OF af False ho, of e] op h show ?thesis
      by (auto split: option.splits)
  qed
qed

lemma assign_free:
  assumes ne: "q \<noteq> p" and af: "alloc_free s" and h1: "holds s q t1" and h2: "holds s p t2"
    and d: "set (addrs t1) \<inter> set (addrs t2) = {}"
  shows "\<exists>r s'. assign s q p = Some (r, s')
           \<and> alloc_free s' \<and> new_throws s' = new_throws s \<and> next_node s \<le> next_node s'
           \<and> (\<forall>b<next_node s. b \<notin> set (addrs t1) \<longrightarrow> nodes s' b = nodes s b)
           \<and> (\<forall>b \<in> set (addrs t1). nodes s' b = None)
           \<and> (r = Inl alloc_failure \<and> queues s' = queues s
                 \<and> (\<exists>a\<ge>next_node s. a < next_node s + size t2 \<and> new_throws s a)
              \<or> r = Inr () \<and> holds s' q (relabel (next_node s) t2)
                 \<and> (\<forall>q'. q' \<noteq> q \<longrightarrow> queues s' q' = queues s q'))"
proof -
  let ?h = "nodes s" and ?b = "next_node s"
  from h1 obtain Q where Q: "queues s q = Some Q" "root Q = rootp t1" "sz Q = size t1"
    "owns ?h t1" "distinct (addrs t1)" by (rule holdsE)
  from h2 obtain P where P: "queues s p = Some P" "root P = rootp t2" "sz P = size t2"
    "owns ?h t2" "distinct (addrs t2)" by (rule holdsE)
  let ?h1 = "release ?h (addrs t1)"
  have c1: "clear ?h (rootp t1) = Some (Inr (), ?h1)" by (rule clear_refines [OF Q(4,5)])
  have o1: "owns ?h1 t2" by (rule owns_frame [OF P(4)]) (use d in \<open>auto simp: release_def\<close>)
  from af have "\<forall>a\<ge>?b. ?h1 a = None" by (simp add: alloc_free_def release_def)
  from copy_steps [OF o1 this, of "new_throws s"] obtain r h' b' where c:
    "copy (new_throws s) (?h1, ?b) (rootp t2) = Some (r, h', b')" "?b \<le> b'"
    "\<forall>a<?b. h' a = ?h1 a" "\<forall>a\<ge>b'. h' a = None"
    "r = Inl alloc_failure \<and> (\<exists>a\<ge>?b. a < ?b + size t2 \<and> new_throws s a)
       \<or> r = Inr (rootp (relabel ?b t2)) \<and> b' = ?b + size t2 \<and> owns h' (relabel ?b t2)"
    by blast
  have old: "\<forall>b<?b. b \<notin> set (addrs t1) \<longrightarrow> h' b = ?h b" using c(3) by (simp add: release_def)
  have gone: "\<forall>b \<in> set (addrs t1). h' b = None"
    using c(3) holds_below_free [OF af h1] by (simp add: release_def)
  from c(5) show ?thesis
  proof
    assume f: "r = Inl alloc_failure \<and> (\<exists>a\<ge>?b. a < ?b + size t2 \<and> new_throws s a)"
    let ?s' = "s\<lparr>nodes := h', next_node := b'\<rparr>"
    have "assign s q p = Some (Inl alloc_failure, ?s')"
      using c1 c(1) f Q(1,2) P(1,2) ne by (simp add: assign_def)
    moreover have "alloc_free ?s'" using c(4) by (simp add: alloc_free_def)
    ultimately show ?thesis using c(2) old gone f by simp
  next
    assume g: "r = Inr (rootp (relabel ?b t2)) \<and> b' = ?b + size t2 \<and> owns h' (relabel ?b t2)"
    let ?s' = "s\<lparr>nodes := h', next_node := b',
                 queues := (queues s)(q \<mapsto> \<lparr>root = rootp (relabel ?b t2), sz = sz P, comp = comp P\<rparr>)\<rparr>"
    have "assign s q p = Some (Inr (), ?s')"
      using c1 c(1) g Q(1,2) P(1,2) ne by (simp add: assign_def)
    moreover have "alloc_free ?s'" using c(4) by (simp add: alloc_free_def)
    moreover have "holds ?s' q (relabel ?b t2)"
      using g P(3) by (simp add: holds_def addrs_relabel)
    ultimately show ?thesis using c(2) old gone by simp
  qed
qed

text \<open>
  After an assignment in which an allocation has thrown, the queue assigned to still has
  its old \<open>root\<close> and \<open>sz\<close>, and the nodes it had are deleted: if it was not empty, it holds
  no tree any more.
\<close>

lemma assign_failure_dangles:
  assumes ne: "q \<noteq> p" and af: "alloc_free s" and h1: "holds s q t1" and h2: "holds s p t2"
    and d: "set (addrs t1) \<inter> set (addrs t2) = {}" and nz: "t1 \<noteq> Tip"
    and op: "assign s q p = Some (Inl alloc_failure, s')"
  shows "queues s' q = queues s q \<and> \<not> (\<exists>t. holds s' q t)"
proof -
  from assign_free [OF ne af h1 h2 d] op have q: "queues s' = queues s"
    and gone: "\<forall>b \<in> set (addrs t1). nodes s' b = None" by auto
  from nz obtain l a x k r where t1: "t1 = Br l a x k r" by (cases t1) auto
  from h1 obtain Q where Q: "queues s q = Some Q" "root Q = rootp t1" by (rule holdsE)
  have a: "nodes s' a = None" using gone t1 by simp
  have "\<not> holds s' q t" for t
  proof
    assume "holds s' q t"
    then have "rootp t = Some a" "owns (nodes s') t" using q Q t1 by (auto simp: holds_def)
    then show False using a by (cases t) auto
  qed
  then show ?thesis using q by simp
qed

subsection \<open>The invariant of reachable states\<close>

lemma inv_below:
  assumes "state_inv s T" and "a \<in> set (addrs (T q))"
  shows "a < next_node s"
proof (cases "queues s q")
  case None
  then show ?thesis using assms by (auto simp: state_inv_def)
next
  case (Some Q)
  then have "holds s q (T q)" using assms(1) by (auto simp: state_inv_def)
  moreover have "alloc_free s" using assms(1) by (simp add: state_inv_def)
  ultimately show ?thesis using assms(2) holds_below_free by blast
qed

lemma inv_holds: "state_inv s T \<Longrightarrow> queues s q \<noteq> None \<Longrightarrow> holds s q (T q)"
  by (simp add: state_inv_def)

lemma inv_change:
  assumes inv: "state_inv s T" and al: "alloc_free s'"
    and same: "\<forall>q. q \<notin> C \<longrightarrow> queues s' q = queues s q \<and> T' q = T q"
    and chg: "\<forall>q \<in> C. ((queues s' q = None \<and> T' q = Tip) \<or> (queues s' q \<noteq> None \<and> holds s' q (T' q)))
                  \<and> leftist (T' q)"
    and frame: "\<forall>a. a < next_node s \<longrightarrow> a \<notin> (\<Union>q\<in>C. set (addrs (T q))) \<longrightarrow> nodes s' a = nodes s a"
    and sub: "(\<Union>q\<in>C. set (addrs (T' q))) \<subseteq> (\<Union>q\<in>C. set (addrs (T q))) \<union> {a. next_node s \<le> a}"
    and dj: "\<forall>q \<in> C. \<forall>q' \<in> C. q \<noteq> q' \<longrightarrow> set (addrs (T' q)) \<inter> set (addrs (T' q')) = {}"
  shows "state_inv s' T'"
proof -
  from inv have old: "\<And>q. queues s q = None \<Longrightarrow> T q = Tip"
    "\<And>q. queues s q \<noteq> None \<Longrightarrow> holds s q (T q)"
    "\<And>q q'. q \<noteq> q' \<Longrightarrow> set (addrs (T q)) \<inter> set (addrs (T q')) = {}"
    "\<And>q. leftist (T q)" by (auto simp: state_inv_def)
  have out: "a < next_node s \<and> a \<notin> (\<Union>q\<in>C. set (addrs (T q)))" if "q \<notin> C" "a \<in> set (addrs (T q))" for q a
  proof -
    have "a \<notin> set (addrs (T q'))" if "q' \<in> C" for q'
      using old(3) [of q q'] \<open>q \<notin> C\<close> \<open>a \<in> set (addrs (T q))\<close> that by auto
    then show ?thesis using inv_below [OF inv that(2)] by auto
  qed
  have 1: "(queues s' q = None \<longrightarrow> T' q = Tip) \<and> (queues s' q \<noteq> None \<longrightarrow> holds s' q (T' q))" for q
  proof (cases "q \<in> C")
    case True
    then show ?thesis using chg by auto
  next
    case False
    then have e: "queues s' q = queues s q" "T' q = T q" using same by auto
    show ?thesis
    proof (cases "queues s q")
      case None
      then show ?thesis using e old(1) by simp
    next
      case (Some Q)
      then have h: "holds s q (T q)" using old(2) by simp
      have "holds s' q (T q)"
        by (rule holds_frame [OF h e(1)]) (use out [OF False] frame in blast)
      then show ?thesis using e Some by simp
    qed
  qed
  have 2: "set (addrs (T' q)) \<inter> set (addrs (T' q')) = {}" if "q \<noteq> q'" for q q'
  proof -
    have mixed: "set (addrs (T' a)) \<inter> set (addrs (T' b)) = {}" if "a \<in> C" "b \<notin> C" for a b
    proof -
      have "set (addrs (T' a)) \<subseteq> (\<Union>q\<in>C. set (addrs (T q))) \<union> {a. next_node s \<le> a}"
        using sub that(1) by blast
      moreover have "T' b = T b" using same that(2) by simp
      ultimately show ?thesis using out [OF that(2)] by fastforce
    qed
    show ?thesis
    proof (cases "q \<in> C"; cases "q' \<in> C")
      assume "q \<in> C" "q' \<in> C"
      then show ?thesis using dj that by blast
    next
      assume "q \<in> C" "q' \<notin> C"
      then show ?thesis by (rule mixed)
    next
      assume "q \<notin> C" "q' \<in> C"
      then show ?thesis using mixed [of q' q] by blast
    next
      assume "q \<notin> C" "q' \<notin> C"
      then show ?thesis using same old(3) [OF that] by simp
    qed
  qed
  have 3: "leftist (T' q)" for q
    using chg same old(4) by (cases "q \<in> C") auto
  show ?thesis unfolding state_inv_def using al 1 2 3 by blast
qed

lemma inv_start: "state_inv (init_state\<lparr>new_throws := thr\<rparr>) (\<lambda>q. Tip)"
  by (simp add: state_inv_def init_state_def alloc_free_def)

lemma inv_construct:
  assumes inv: "state_inv s T" and "queues s q = None" and "construct s q c = (r, s')"
  shows "state_inv s' T"
proof -
  from assms(2,3) have s': "s' = s\<lparr>queues := (queues s)(q \<mapsto> \<lparr>root = None, sz = 0, comp = c\<rparr>)\<rparr>"
    by (auto simp: construct_def)
  from inv assms(2) have tq: "T q = Tip" by (simp add: state_inv_def)
  show ?thesis
  proof (rule inv_change [OF inv, where C = "{q}"])
    show "alloc_free s'" using inv by (simp add: s' state_inv_def alloc_free_def)
    show "\<forall>q'. q' \<notin> {q} \<longrightarrow> queues s' q' = queues s q' \<and> T q' = T q'" by (simp add: s')
    show "\<forall>q'\<in>{q}. (queues s' q' = None \<and> T q' = Tip \<or> queues s' q' \<noteq> None \<and> holds s' q' (T q'))
        \<and> leftist (T q')" by (simp add: s' tq holds_def)
  qed (simp_all add: s')
qed

lemma inv_push:
  assumes inv: "state_inv s T" and live: "queues s q \<noteq> None" and op: "push s q e = Some (r, s')"
  shows "\<exists>T'. state_inv s' T'"
proof -
  from inv have al: "alloc_free s" by (simp add: state_inv_def)
  note ho = inv_holds [OF inv live]
  let ?leaf = "Br Tip (next_node s) e 1 Tip"
  have skip: "state_inv (s\<lparr>next_node := next_node s + 1\<rparr>) T"
  proof (rule inv_change [OF inv, where C = "{}"])
    show "alloc_free (s\<lparr>next_node := next_node s + 1\<rparr>)" using al by (simp add: alloc_free_def)
  qed simp_all
  show ?thesis
  proof (cases "new_throws s (next_node s)")
    case True
    with push_alloc_fails [of s q e] op have "s' = s\<lparr>next_node := next_node s + 1\<rparr>" by simp
    then show ?thesis using skip by blast
  next
    case nt: False
    show ?thesis
    proof (cases "mergeT (cmp_of s q) (T q) ?leaf")
      case None
      with push_free_steps [OF al nt ho, of e] op
      have "s' = s\<lparr>next_node := next_node s + 1\<rparr>" by simp
      then show ?thesis using skip by blast
    next
      case (Some t')
      with push_free_steps [OF al nt ho, of e] op have s':
        "holds s' q t'" "alloc_free s'" "\<forall>q'. q' \<noteq> q \<longrightarrow> queues s' q' = queues s q'"
        "\<forall>a. a \<notin> set (addrs (T q)) \<longrightarrow> a \<noteq> next_node s \<longrightarrow> nodes s' a = nodes s a" by auto
      have lf: "leftist t'" using leftist_mergeT [OF Some] inv by (simp add: state_inv_def)
      have ad: "set (addrs t') = set (addrs (T q)) \<union> {next_node s}"
        using set_addrs_mergeT [OF Some] by simp
      have "state_inv s' (T(q := t'))"
      proof (rule inv_change [OF inv s'(2), where C = "{q}"])
        show "\<forall>q'\<in>{q}. (queues s' q' = None \<and> (T(q := t')) q' = Tip
             \<or> queues s' q' \<noteq> None \<and> holds s' q' ((T(q := t')) q')) \<and> leftist ((T(q := t')) q')"
          using s'(1) lf by (auto simp: holds_def split: option.splits)
      qed (use s'(3,4) ad in auto)
      then show ?thesis by blast
    qed
  qed
qed

lemma inv_pop:
  assumes inv: "state_inv s T" and live: "queues s q \<noteq> None" and op: "pop s q = Some (r, s')"
  shows "\<exists>T'. state_inv s' T'"
proof -
  note ho = inv_holds [OF inv live]
  show ?thesis
  proof (cases "T q")
    case Tip
    then have "s' = s" using pop_Tip [of s q] ho op by simp
    then show ?thesis using inv by blast
  next
    case (Br l a x k r)
    note hb = ho [unfolded Br]
    show ?thesis
    proof (cases "mergeT (cmp_of s q) l r")
      case None
      with pop_steps [OF hb] op have "s' = s" by simp
      then show ?thesis using inv by blast
    next
      case (Some m)
      with pop_steps [OF hb] op have s':
        "holds s' q m" "\<forall>q'. q' \<noteq> q \<longrightarrow> queues s' q' = queues s q'"
        "\<forall>b. b \<notin> set (addrs (Br l a x k r)) \<longrightarrow> nodes s' b = nodes s b"
        "alloc_free s \<longrightarrow> alloc_free s'" by auto
      from inv have al: "alloc_free s'" using s'(4) by (simp add: state_inv_def)
      have "leftist (T q)" using inv by (simp add: state_inv_def)
      then have lf: "leftist m" using leftist_mergeT [OF Some] Br by simp
      have ad: "set (addrs m) \<subseteq> set (addrs (T q))" using set_addrs_mergeT [OF Some] Br by auto
      have "state_inv s' (T(q := m))"
      proof (rule inv_change [OF inv al, where C = "{q}"])
        show "\<forall>q'\<in>{q}. (queues s' q' = None \<and> (T(q := m)) q' = Tip
             \<or> queues s' q' \<noteq> None \<and> holds s' q' ((T(q := m)) q')) \<and> leftist ((T(q := m)) q')"
          using s'(1) lf by (auto simp: holds_def split: option.splits)
      qed (use s'(2,3) ad Br in auto)
      then show ?thesis by blast
    qed
  qed
qed

lemma inv_distinct:
  assumes inv: "state_inv s T" and "queues s q \<noteq> None" and "queues s p \<noteq> None" and "q \<noteq> p"
  shows "distinct (addrs (T q) @ addrs (T p))"
proof -
  have "distinct (addrs (T q))" "distinct (addrs (T p))"
    using inv_holds [OF inv assms(2)] inv_holds [OF inv assms(3)]
    by (auto simp: holds_def split: option.splits)
  moreover have "set (addrs (T q)) \<inter> set (addrs (T p)) = {}"
    using inv assms(4) by (simp add: state_inv_def)
  ultimately show ?thesis by simp
qed

lemma inv_merge:
  assumes inv: "state_inv s T" and lq: "queues s q \<noteq> None" and lp: "queues s p \<noteq> None"
    and op: "merge_pq s q p = Some (r, s')"
  shows "\<exists>T'. state_inv s' T'"
proof (cases "q = p")
  case True
  then have "s' = s" using op by (simp add: merge_pq_def)
  then show ?thesis using inv by blast
next
  case ne: False
  note hq = inv_holds [OF inv lq] and hp = inv_holds [OF inv lp]
  note d = inv_distinct [OF inv lq lp ne]
  show ?thesis
  proof (cases "mergeT (cmp_of s q) (T q) (T p)")
    case None
    with merge_pq_steps [OF ne hq hp d] op have "s' = s" by simp
    then show ?thesis using inv by blast
  next
    case (Some t)
    with merge_pq_steps [OF ne hq hp d] op have s':
      "holds s' q t" "holds s' p Tip"
      "\<forall>q'. q' \<noteq> q \<longrightarrow> q' \<noteq> p \<longrightarrow> queues s' q' = queues s q'"
      "\<forall>b. b \<notin> set (addrs (T q) @ addrs (T p)) \<longrightarrow> nodes s' b = nodes s b"
      "alloc_free s \<longrightarrow> alloc_free s'" by auto
    from inv have al: "alloc_free s'" using s'(5) by (simp add: state_inv_def)
    have lf: "leftist t" using leftist_mergeT [OF Some] inv by (simp add: state_inv_def)
    have ad: "set (addrs t) = set (addrs (T q)) \<union> set (addrs (T p))"
      by (rule set_addrs_mergeT [OF Some])
    let ?T' = "T(q := t, p := Tip)"
    have "state_inv s' ?T'"
    proof (rule inv_change [OF inv al, where C = "{q, p}"])
      show "\<forall>q'\<in>{q, p}. (queues s' q' = None \<and> ?T' q' = Tip
           \<or> queues s' q' \<noteq> None \<and> holds s' q' (?T' q')) \<and> leftist (?T' q')"
        using s'(1,2) lf ne by (auto simp: holds_def split: option.splits)
    qed (use s'(3,4) ad ne in auto)
    then show ?thesis by blast
  qed
qed

lemma inv_copy:
  assumes inv: "state_inv s T" and fq: "queues s q = None" and lp: "queues s p \<noteq> None"
    and op: "copy_construct s q p = Some (r, s')"
  shows "\<exists>T'. state_inv s' T'"
proof -
  from inv have al: "alloc_free s" by (simp add: state_inv_def)
  note hp = inv_holds [OF inv lp]
  let ?t' = "relabel (next_node s) (T p)"
  from copy_construct_free [OF al hp fq] op have s':
    "alloc_free s'" "\<forall>b<next_node s. nodes s' b = nodes s b"
    "r = Inl alloc_failure \<and> queues s' = queues s
       \<or> r = Inr () \<and> holds s' q ?t' \<and> (\<forall>q'. q' \<noteq> q \<longrightarrow> queues s' q' = queues s q')" by auto
  from s'(3) show ?thesis
  proof
    assume f: "r = Inl alloc_failure \<and> queues s' = queues s"
    have "state_inv s' T"
      by (rule inv_change [OF inv s'(1), where C = "{}"]) (use f s'(2) in simp_all)
    then show ?thesis by blast
  next
    assume g: "r = Inr () \<and> holds s' q ?t' \<and> (\<forall>q'. q' \<noteq> q \<longrightarrow> queues s' q' = queues s q')"
    have lf: "leftist ?t'" using inv by (simp add: state_inv_def)
    have "state_inv s' (T(q := ?t'))"
    proof (rule inv_change [OF inv s'(1), where C = "{q}"])
      show "\<forall>q'\<in>{q}. (queues s' q' = None \<and> (T(q := ?t')) q' = Tip
           \<or> queues s' q' \<noteq> None \<and> holds s' q' ((T(q := ?t')) q')) \<and> leftist ((T(q := ?t')) q')"
        using g lf by (auto simp: holds_def split: option.splits)
    qed (use g s'(2) in \<open>auto simp: addrs_relabel\<close>)
    then show ?thesis by blast
  qed
qed

lemma inv_assign:
  assumes inv: "state_inv s T" and lq: "queues s q \<noteq> None" and lp: "queues s p \<noteq> None"
    and op: "assign s q p = Some (r, s')" and ok: "r \<noteq> Inl alloc_failure"
  shows "\<exists>T'. state_inv s' T'"
proof (cases "q = p")
  case True
  then have "s' = s" using op by (simp add: assign_def)
  then show ?thesis using inv by blast
next
  case ne: False
  from inv have al: "alloc_free s" by (simp add: state_inv_def)
  note hq = inv_holds [OF inv lq] and hp = inv_holds [OF inv lp]
  have dj: "set (addrs (T q)) \<inter> set (addrs (T p)) = {}" using inv ne by (simp add: state_inv_def)
  let ?t' = "relabel (next_node s) (T p)"
  from assign_free [OF ne al hq hp dj] op ok have s':
    "holds s' q ?t'" "alloc_free s'" "\<forall>q'. q' \<noteq> q \<longrightarrow> queues s' q' = queues s q'"
    "\<forall>b<next_node s. b \<notin> set (addrs (T q)) \<longrightarrow> nodes s' b = nodes s b" by auto
  have lf: "leftist ?t'" using inv by (simp add: state_inv_def)
  have "state_inv s' (T(q := ?t'))"
  proof (rule inv_change [OF inv s'(2), where C = "{q}"])
    show "\<forall>q'\<in>{q}. (queues s' q' = None \<and> (T(q := ?t')) q' = Tip
         \<or> queues s' q' \<noteq> None \<and> holds s' q' ((T(q := ?t')) q')) \<and> leftist ((T(q := ?t')) q')"
      using s'(1) lf by (auto simp: holds_def split: option.splits)
  qed (use s'(3,4) in \<open>auto simp: addrs_relabel\<close>)
  then show ?thesis by blast
qed

lemma inv_destroy:
  assumes inv: "state_inv s T" and lq: "queues s q \<noteq> None" and op: "destroy s q = Some (r, s')"
  shows "\<exists>T'. state_inv s' T'"
proof -
  from inv have al: "alloc_free s" by (simp add: state_inv_def)
  note hq = inv_holds [OF inv lq]
  from destroy_steps [OF hq] op
  have s': "s' = s\<lparr>nodes := release (nodes s) (addrs (T q)), queues := (queues s)(q := None)\<rparr>"
    by simp
  have "state_inv s' (T(q := Tip))"
  proof (rule inv_change [OF inv, where C = "{q}"])
    show "alloc_free s'" using al by (simp add: s' alloc_free_def release_def)
  qed (simp_all add: s' release_def)
  then show ?thesis by blast
qed

lemma reachable_ok_inv: "reachable_ok s \<Longrightarrow> \<exists>T. state_inv s T"
proof (induction rule: reachable_ok.induct)
  case start
  show ?case using inv_start by blast
next
  case (construct s q c r s')
  from construct.IH obtain T where "state_inv s T" by blast
  from inv_construct [OF this construct.hyps(2,3)] show ?case by blast
next
  case (push s q e r s')
  from push.IH obtain T where "state_inv s T" by blast
  from inv_push [OF this push.hyps(2,3)] show ?case .
next
  case (pop s q r s')
  from pop.IH obtain T where "state_inv s T" by blast
  from inv_pop [OF this pop.hyps(2,3)] show ?case .
next
  case (merge s q p r s')
  from merge.IH obtain T where "state_inv s T" by blast
  from inv_merge [OF this merge.hyps(2,3,4)] show ?case .
next
  case (copy s q p r s')
  from copy.IH obtain T where "state_inv s T" by blast
  from inv_copy [OF this copy.hyps(2,3,4)] show ?case .
next
  case (assign s q p r s')
  from assign.IH obtain T where "state_inv s T" by blast
  from inv_assign [OF this assign.hyps(2,3,4,5)] show ?case .
next
  case (destroy s q r s')
  from destroy.IH obtain T where "state_inv s T" by blast
  from inv_destroy [OF this destroy.hyps(2,3)] show ?case .
qed

lemma reachable_ok_reachable: "reachable_ok s \<Longrightarrow> reachable s"
  by (induction rule: reachable_ok.induct) (auto intro: reachable.intros)

lemma owns_node_leftist:
  "owns h t \<Longrightarrow> leftist t \<Longrightarrow> a \<in> set (addrs t) \<Longrightarrow> node_leftist h a"
proof (induction t)
  case Tip
  then show ?case by simp
next
  case (Br l b x k r)
  show ?case
  proof (cases "a = b")
    case True
    from Br.prems(1) have "getNPL h (rootp l) = Inr (rk l)" "getNPL h (rootp r) = Inr (rk r)"
      by (simp_all add: getNPL_owns)
    then show ?thesis using True Br.prems(1,2) by (simp add: node_leftist_def)
  next
    case False
    then show ?thesis using Br by auto
  qed
qed

lemma leftist_rk_true: "leftist t \<Longrightarrow> rk t = null_path_length t"
  by (induction t) auto

text \<open>
  In every state reached without an assignment in which an allocation throws, every queue
  object holds a tree in which each node has \<open>npl(left) \<ge> npl(right)\<close> and
  \<open>npl = npl(right) + 1\<close>, an absent child counting 0; the stored \<open>npl\<close> is the null path
  length. These states are closed under the constructors, \<open>push\<close>, \<open>pop\<close>, \<open>merge\<close>, the
  destructor and the assignments in which no allocation throws, whatever they return: a
  \<open>push\<close> or a copy construction in which an allocation throws is among them.
\<close>

lemma reachable_ok_leftist:
  assumes "reachable_ok s" and "queues s q \<noteq> None"
  shows "\<exists>t. holds s q t \<and> leftist t \<and> rk t = null_path_length t
           \<and> (\<forall>a \<in> set (addrs t). node_leftist (nodes s) a)"
proof -
  from reachable_ok_inv [OF assms(1)] obtain T where "state_inv s T" by blast
  then have h: "holds s q (T q)" and l: "leftist (T q)" using assms(2) by (simp_all add: state_inv_def)
  from h have "owns (nodes s) (T q)" by (rule holdsE)
  then have "\<forall>a \<in> set (addrs (T q)). node_leftist (nodes s) a"
    using owns_node_leftist l by blast
  then show ?thesis using h l leftist_rk_true [OF l] by blast
qed

lemma push_live:
  assumes "push s q e = Some (r, s')" and "queues s p \<noteq> None"
  shows "queues s' p \<noteq> None"
proof (cases "new_throws s (next_node s)")
  case True
  with push_alloc_fails [of s q e] assms show ?thesis by auto
next
  case nt: False
  let ?s1 = "s\<lparr>nodes := (nodes s)(next_node s \<mapsto> new_Node e), next_node := next_node s + 1\<rparr>"
  show ?thesis
  proof (cases "queues s q")
    case None
    with nt assms show ?thesis by (auto simp: push_def Let_def)
  next
    case (Some Q)
    with nt assms(1) obtain res h' where
      m: "merge (comp Q) (nodes ?s1) (root Q) (Some (next_node s)) = Some (res, h')"
      by (auto simp: push_def Let_def bind_eq_Some_conv)
    have "queues s' = queues s \<or> (\<exists>Q'. queues s' = (queues s)(q \<mapsto> Q'))"
      using nt Some assms(1) m
      by (cases res; cases "delete_node h' (next_node s)")
         (auto simp: push_def Let_def split: if_splits)
    then show ?thesis using assms(2) by auto
  qed
qed

lemma push_all_reachable_ok:
  "reachable_ok s \<Longrightarrow> queues s q \<noteq> None \<Longrightarrow> push_all s q xs = Some (r, s')
     \<Longrightarrow> reachable_ok s' \<and> (\<forall>p. queues s p \<noteq> None \<longrightarrow> queues s' p \<noteq> None)"
proof (induction xs arbitrary: s)
  case Nil
  then show ?case by simp
next
  case (Cons x xs)
  from Cons.prems(3) obtain r1 s1 where p: "push s q x = Some (r1, s1)"
    by (cases "push s q x") auto
  have r1: "reachable_ok s1" by (rule reachable_ok.push [OF Cons.prems(1,2) p])
  have l1: "\<forall>p. queues s p \<noteq> None \<longrightarrow> queues s1 p \<noteq> None" using push_live [OF p] by blast
  show ?case
  proof (cases r1)
    case (Inl e)
    then have "s' = s1" using Cons.prems(3) p by simp
    then show ?thesis using r1 l1 by simp
  next
    case (Inr u)
    then have "push_all s1 q xs = Some (r, s')" using Cons.prems(3) p by simp
    from Cons.IH [OF r1 _ this] l1 Cons.prems(2) show ?thesis by blast
  qed
qed

subsection \<open>The concrete states\<close>

lemma swo_int: "strict_weak_order ((<) :: int \<Rightarrow> int \<Rightarrow> bool)"
  by (auto simp: strict_weak_order_def)

lemma st_empty_facts:
  "alloc_ok st_empty" "holds st_empty 0 Tip" "cmp_of st_empty 0 = total_cmp (<)"
  by (simp_all add: st_empty_def construct_def init_state_def alloc_ok_def alloc_free_def holds_def
      cmp_of_def less_int_def)

lemma st_throw_alloc_ok: "alloc_ok st_throw"
  by (auto simp: alloc_ok_def alloc_free_def st_throw_def)

lemma st_throw_push: "push st_throw 1 4 = Some (Inl comparator_failure, st_throw\<lparr>next_node := 6\<rparr>)"
  using push_steps [OF st_throw_alloc_ok, of 1 "Br Tip 3 3 1 Tip" 4]
  by (simp add: holds_def st_throw_def cmp_of_def less_int_throw34_def)

lemma st_throw_merge: "merge_pq st_throw 1 2 = Some (Inl comparator_failure, st_throw)"
  using merge_pq_steps [of 1 2 st_throw "Br Tip 3 3 1 Tip" "Br Tip 4 4 1 Tip"]
  by (simp add: holds_def st_throw_def cmp_of_def less_int_throw34_def)

lemma st_two_facts:
  "alloc_ok st_two" "holds st_two 0 tree_153" "holds st_two 1 tree_42"
  "cmp_of st_two 0 = total_cmp (<)" "cmp_of st_two 1 = total_cmp (<)"
  "heap_ordered (<) tree_153" "heap_ordered (<) tree_42"
  "distinct (addrs tree_153 @ addrs tree_42)"
  by (auto simp: st_two_def alloc_ok_def alloc_free_def holds_def cmp_of_def less_int_def
      tree_153_def tree_42_def)

lemma st_two_fresh: "queues st_two 2 = None"
  by (simp add: st_two_def)

lemma built_two_is_st_two:
  "map (nodes built_two) [0, 1, 2, 3, 4] = map (nodes st_two) [0, 1, 2, 3, 4]"
  "next_node built_two = next_node st_two"
  "map (map_option (\<lambda>Q. (root Q, sz Q)) \<circ> queues built_two) [0, 1]
     = map (map_option (\<lambda>Q. (root Q, sz Q)) \<circ> queues st_two) [0, 1]"
  unfolding built_two_def by code_simp+

text \<open>
  \<open>st_alloc\<close> has the nodes and the queue objects of \<open>st_two\<close>, and it is reached without any
  exception. In \<open>st_dangling\<close> the nodes 3 and 4 that \<open>q1\<close> had are deleted, node 5 is
  allocated and belongs to no queue, and \<open>q1\<close> still has \<open>root\<close> 3 and \<open>sz\<close> 2.
\<close>

lemma st_alloc_is_st_two:
  "map (nodes st_alloc) [0, 1, 2, 3, 4, 5, 6] = map (nodes st_two) [0, 1, 2, 3, 4, 5, 6]"
  "next_node st_alloc = next_node st_two"
  "map (map_option (\<lambda>Q. (root Q, sz Q)) \<circ> queues st_alloc) [0, 1, 2]
     = map (map_option (\<lambda>Q. (root Q, sz Q)) \<circ> queues st_two) [0, 1, 2]"
  "map (new_throws st_alloc) [0, 1, 2, 3, 4, 5, 6, 7] = map (\<lambda>a. a = (6::nat)) [0, 1, 2, 3, 4, 5, 6, 7]"
  unfolding st_alloc_def by code_simp+

lemma st_alloc_reachable: "reachable_ok st_alloc"
proof -
  let ?s0 = "init_state\<lparr>new_throws := (\<lambda>a. a = 6)\<rparr> :: int state"
  let ?s1 = "snd (construct ?s0 0 less_int)"
  let ?s2 = "snd (construct ?s1 1 less_int)"
  let ?s3 = "snd (the (push_all ?s2 0 [1, 5, 3]))"
  have r0: "reachable_ok ?s0" by (rule reachable_ok.start)
  have r1: "reachable_ok ?s1"
    by (rule reachable_ok.construct [OF r0, of 0 less_int "fst (construct ?s0 0 less_int)"])
       (simp_all add: init_state_def)
  have r2: "reachable_ok ?s2"
    by (rule reachable_ok.construct [OF r1, of 1 less_int "fst (construct ?s1 1 less_int)"])
       (simp_all add: init_state_def construct_def)
  have l2: "queues ?s2 0 \<noteq> None" "queues ?s2 1 \<noteq> None"
    by (simp_all add: init_state_def construct_def)
  have "push_all ?s2 0 [1, 5, 3] \<noteq> None" by code_simp
  then have p3: "push_all ?s2 0 [1, 5, 3] = Some (fst (the (push_all ?s2 0 [1, 5, 3])), ?s3)"
    by auto
  from push_all_reachable_ok [OF r2 l2(1) p3] l2(2)
  have r3: "reachable_ok ?s3" and l3: "queues ?s3 1 \<noteq> None" by blast+
  have "push_all ?s3 1 [4, 2] \<noteq> None" by code_simp
  then have p4: "push_all ?s3 1 [4, 2] = Some (fst (the (push_all ?s3 1 [4, 2])), st_alloc)"
    by (auto simp: st_alloc_def)
  from push_all_reachable_ok [OF r3 l3 p4] show ?thesis by blast
qed

lemma st_alloc_assign: "assign st_alloc 1 0 = Some (Inl alloc_failure, st_dangling)"
proof -
  have "map_option fst (assign st_alloc 1 0) = Some (Inl alloc_failure)"
    unfolding st_alloc_def by code_simp
  then show ?thesis by (auto simp: st_dangling_def)
qed

lemma st_dangling_facts:
  "map_option (\<lambda>Q. (root Q, sz Q)) (queues st_dangling 1) = Some (Some 3, 2)"
  "map (nodes st_dangling) [3, 4, 6] = [None, None, None]"
  "nodes st_dangling 5 = Some \<lparr>data = 5, left = None, right = None, npl = 1\<rparr>"
  "next_node st_dangling = 7"
  unfolding st_dangling_def st_alloc_def by code_simp+

text \<open>
  The example of the specification, run on the model: merging \<open>{1, 5, 3}\<close> with \<open>{4, 2}\<close>
  gives size 5, top 5 and the drain order 5, 4, 3, 2, 1, and leaves the donor with size 0.
\<close>

lemma ex_top: "top (snd (the (push_all st_empty 0 [1, 5, 3]))) 0 = Inr 5"
  by code_simp

lemma ex_drain: "map_option fst (drain st_two 0) = Some (Inr [(5, 2), (3, 1), (1, 0)])"
  by code_simp

lemma ex_merge:
  "map_option fst (merge_pq st_two 0 1) = Some (Inr ())"
  "size_pq (snd (the (merge_pq st_two 0 1))) 0 = Inr 5"
  "top (snd (the (merge_pq st_two 0 1))) 0 = Inr 5"
  "map_option (map_sum id (map fst) \<circ> fst) (drain (snd (the (merge_pq st_two 0 1))) 0)
     = Some (Inr [5, 4, 3, 2, 1])"
  "size_pq (snd (the (merge_pq st_two 0 1))) 1 = Inr 0"
  by code_simp+

lemma ex_copy:
  "map_option fst (copy_construct st_two 2 0) = Some (Inr ())"
  "map_option fst (drain (snd (the (copy_construct st_two 2 0))) 2) = Some (Inr [(5, 2), (3, 1), (1, 0)])"
  "map_option fst (drain (the (run_ops (snd (the (copy_construct st_two 2 0))) 2 [Push 9, Pop, Pop])) 0)
     = Some (Inr [(5, 2), (3, 1), (1, 0)])"
  "map_option fst (drain (the (run_ops (snd (the (copy_construct st_two 2 0))) 2 [Push 9, Pop, Pop])) 2)
     = Some (Inr [(3, 1), (1, 0)])"
  by code_simp+

section \<open>The claims\<close>

text \<open>
  C1. After any sequence of \<open>push\<close> calls on a queue whose comparator is a strict weak
  order that does not throw, \<open>top()\<close> returns a held element that is not less than any
  held element. The queue may start empty (\<open>t = Tip\<close>, as after construction) or hold any
  heap-ordered tree; at least one element must be held.
\<close>

theorem top_after_pushes:
  assumes "strict_weak_order lt" and "alloc_ok s" and "holds s q t"
    and "cmp_of s q = total_cmp lt" and "heap_ordered lt t"
    and "t \<noteq> Tip \<or> xs \<noteq> []"
  shows "\<exists>s' m. push_all s q xs = Some (Inr (), s') \<and> top s' q = Inr m
           \<and> m \<in># elems t + mset xs \<and> (\<forall>y \<in># elems t + mset xs. \<not> lt m y)"
proof -
  from push_all_total [OF assms(1,2,3,4,5), of xs] obtain s' t' where s':
    "push_all s q xs = Some (Inr (), s')" "holds s' q t'"
    "elems t' = elems t + mset xs" "heap_ordered lt t'" by blast
  have "elems t + mset xs \<noteq> {#}" using assms(6) by (cases t) auto
  then obtain l a m k r where t': "t' = Br l a m k r" using s'(3) by (cases t') auto
  have "top s' q = Inr m" using top_holds [OF s'(2)] t' by simp
  moreover have "\<forall>y \<in># elems t'. \<not> lt m y"
    unfolding t' by (rule heap_root_max [OF assms(1)]) (use s'(4) t' in simp)
  moreover have "m \<in># elems t'" using t' by simp
  ultimately show ?thesis using s'(1,3) by auto
qed

theorem top_after_pushes_witness:
  "strict_weak_order ((<) :: int \<Rightarrow> int \<Rightarrow> bool) \<and> alloc_ok st_empty \<and> holds st_empty 0 Tip
   \<and> cmp_of st_empty 0 = total_cmp (<) \<and> heap_ordered (<) (Tip :: (nat, int) ltree)
   \<and> [1, 5, 3 :: int] \<noteq> []
   \<and> (\<exists>s' m. push_all st_empty 0 [1, 5, 3] = Some (Inr (), s') \<and> top s' 0 = Inr m
         \<and> m \<in># elems (Tip :: (nat, int) ltree) + mset [1, 5, 3]
         \<and> (\<forall>y \<in># elems (Tip :: (nat, int) ltree) + mset [1, 5, 3]. \<not> m < y))"
  using top_after_pushes [OF swo_int st_empty_facts, of "[1, 5, 3]"] swo_int st_empty_facts
  by simp

text \<open>
  C2. Draining a queue (\<open>top()\<close> then \<open>pop()\<close> until \<open>empty()\<close>) returns normally and yields
  exactly the held elements, each one not less than any later one; \<open>size()\<close> read after
  the pops counts down \<open>n - 1, ..., 1, 0\<close> from the initial size \<open>n\<close>, so it is 0 after the
  last element and not before.
\<close>

theorem drain_sorted:
  assumes "strict_weak_order lt" and "holds s q t"
    and "cmp_of s q = total_cmp lt" and "heap_ordered lt t"
  shows "\<exists>ds s'. drain s q = Some (Inr ds, s')
           \<and> mset (map fst ds) = elems t
           \<and> sorted_wrt (\<lambda>x y. \<not> lt x y) (map fst ds)
           \<and> size_pq s q = Inr (length ds)
           \<and> map snd ds = rev [0..<length ds]
           \<and> size_pq s' q = Inr 0 \<and> empty s' q = Inr True"
proof -
  obtain ds where ds: "drainT (total_cmp lt) t = Some ds" using drainT_total by blast
  from drain_refines [OF assms(2,3)] ds obtain s' where s':
    "drain s q = Some (Inr ds, s')" "holds s' q Tip" by auto
  from drainT_props [OF assms(1) ds assms(4)] have p: "mset (map fst ds) = elems t"
    "map snd ds = rev [0..<size t]" "sorted_wrt (\<lambda>x y. \<not> lt x y) (map fst ds)" by simp_all
  from p(2) have "length ds = size t" by (metis length_map length_rev length_upt diff_zero)
  then show ?thesis
    using s' p size_holds [OF assms(2)] size_holds [OF s'(2)] empty_holds [OF s'(2)] by auto
qed

theorem drain_sorted_witness:
  "strict_weak_order ((<) :: int \<Rightarrow> int \<Rightarrow> bool) \<and> holds st_two 0 tree_153
   \<and> cmp_of st_two 0 = total_cmp (<) \<and> heap_ordered (<) tree_153
   \<and> (\<exists>ds s'. drain st_two 0 = Some (Inr ds, s')
           \<and> mset (map fst ds) = elems tree_153
           \<and> sorted_wrt (\<lambda>x y. \<not> x < y) (map fst ds)
           \<and> size_pq st_two 0 = Inr (length ds)
           \<and> map snd ds = rev [0..<length ds]
           \<and> size_pq s' 0 = Inr 0 \<and> empty s' 0 = Inr True)"
  using drain_sorted [OF swo_int st_two_facts(2,4,6)] swo_int st_two_facts by simp

text \<open>
  C3. For two distinct queue objects that own disjoint trees, \<open>A.merge(B)\<close> (with a comparator
  that does not throw) returns normally, leaves \<open>A\<close> holding the multiset union of the former
  elements with \<open>size\<close> the sum of the former sizes, and leaves \<open>B\<close> a valid empty queue
  (\<open>root\<close> absent, \<open>size\<close> 0). The witness is the example of the specification.
\<close>

theorem merge_pq_union:
  assumes "q \<noteq> p" and "holds s q tA" and "holds s p tB"
    and "distinct (addrs tA @ addrs tB)" and "cmp_of s q = total_cmp lt"
  shows "\<exists>s' t. merge_pq s q p = Some (Inr (), s')
           \<and> holds s' q t \<and> elems t = elems tA + elems tB
           \<and> size_pq s q = Inr (size tA) \<and> size_pq s p = Inr (size tB)
           \<and> size_pq s' q = Inr (size tA + size tB)
           \<and> holds s' p Tip \<and> size_pq s' p = Inr 0 \<and> empty s' p = Inr True
           \<and> map_option root (queues s' p) = Some None"
proof -
  obtain t where t: "mergeT (total_cmp lt) tA tB = Some t" using mergeT_total by blast
  from merge_pq_steps [OF assms(1-4)] t assms(5) obtain s' where s':
    "merge_pq s q p = Some (Inr (), s')" "holds s' q t" "holds s' p Tip" by auto
  have "map_option root (queues s' p) = Some None"
    using s'(3) by (auto simp: holds_def split: option.splits)
  then show ?thesis
    using s' elems_mergeT [OF t] size_mergeT [OF t] size_holds [OF s'(2)] size_holds [OF s'(3)]
      size_holds [OF assms(2)] size_holds [OF assms(3)] empty_holds [OF s'(3)]
    by auto
qed

theorem merge_pq_union_witness:
  "(0::nat) \<noteq> 1 \<and> holds st_two 0 tree_153 \<and> holds st_two 1 tree_42
   \<and> distinct (addrs tree_153 @ addrs tree_42) \<and> cmp_of st_two 0 = total_cmp (<)
   \<and> (\<exists>s' t. merge_pq st_two 0 1 = Some (Inr (), s')
           \<and> holds s' 0 t \<and> elems t = elems tree_153 + elems tree_42
           \<and> size_pq s' 0 = Inr (size tree_153 + size tree_42)
           \<and> holds s' 1 Tip \<and> size_pq s' 1 = Inr 0)"
proof -
  have ne: "(0::nat) \<noteq> 1" by simp
  from merge_pq_union [OF ne st_two_facts(2,3,8,4)] obtain s' t where
    "merge_pq st_two 0 1 = Some (Inr (), s')" "holds s' 0 t"
    "elems t = elems tree_153 + elems tree_42"
    "size_pq s' 0 = Inr (size tree_153 + size tree_42)" "holds s' 1 Tip" "size_pq s' 1 = Inr 0"
    by blast
  then show ?thesis using st_two_facts ne by blast
qed

text \<open>
  C4. Assignment does not preserve the invariant. Take a state reached without a failed
  assignment, in which every queue object holds a leftist tree with the stored \<open>npl\<close>
  equation at every node, and call \<open>q = p\<close> on a queue \<open>q\<close> that is not empty. When an
  allocation of \<open>copy(other.root)\<close> throws, the state after the call is reachable, \<open>q\<close> has
  the \<open>root\<close> and \<open>sz\<close> it had, and the node at its \<open>root\<close> is deleted: \<open>q\<close> holds no tree at
  all, so that no node of it satisfies the leftist property or the \<open>npl\<close> equation. The
  witness is \<open>q1 = q0\<close> in the example of the specification, with an allocator that throws
  at the second node of the copy.
\<close>

theorem assign_alloc_failure_dangles:
  assumes "reachable_ok s" and "map_option root (queues s q) = Some (Some a)"
    and "queues s p \<noteq> None" and "assign s q p = Some (Inl alloc_failure, s')"
  shows "reachable s' \<and> queues s' q = queues s q \<and> nodes s' a = None
       \<and> \<not> node_leftist (nodes s') a \<and> \<not> (\<exists>t. holds s' q t)"
proof -
  from assms(2) have lq: "queues s q \<noteq> None" by auto
  have ne: "q \<noteq> p" using assms(4) by (auto simp: assign_def)
  from reachable_ok_inv [OF assms(1)] obtain T where inv: "state_inv s T" by blast
  then have af: "alloc_free s" by (simp add: state_inv_def)
  note hq = inv_holds [OF inv lq] and hp = inv_holds [OF inv assms(3)]
  have dj: "set (addrs (T q)) \<inter> set (addrs (T p)) = {}" using inv ne by (simp add: state_inv_def)
  from hq assms(2) have rt: "rootp (T q) = Some a" by (auto simp: holds_def)
  then have nz: "T q \<noteq> Tip" and a: "a \<in> set (addrs (T q))" by (cases "T q"; simp)+
  from assign_free [OF ne af hq hp dj] assms(4) a have gone: "nodes s' a = None" by auto
  from assign_failure_dangles [OF ne af hq hp dj nz assms(4)]
  have d: "queues s' q = queues s q" "\<not> (\<exists>t. holds s' q t)" by simp_all
  have "reachable s'"
    by (rule reachable.assign [OF reachable_ok_reachable [OF assms(1)] lq assms(3,4)])
  then show ?thesis using d gone by (simp add: node_leftist_def)
qed

theorem assign_alloc_failure_dangles_witness:
  "reachable_ok st_alloc \<and> map_option root (queues st_alloc 1) = Some (Some 3)
   \<and> queues st_alloc 0 \<noteq> None \<and> assign st_alloc 1 0 = Some (Inl alloc_failure, st_dangling)
   \<and> reachable st_dangling
   \<and> map_option (\<lambda>Q. (root Q, sz Q)) (queues st_dangling 1) = Some (Some 3, 2)
   \<and> nodes st_dangling 3 = None \<and> \<not> node_leftist (nodes st_dangling) 3
   \<and> \<not> (\<exists>t. holds st_dangling 1 t)"
proof -
  have r: "map_option root (queues st_alloc 1) = Some (Some 3)"
    and l: "queues st_alloc 0 \<noteq> None"
    unfolding st_alloc_def by code_simp+
  from assign_alloc_failure_dangles [OF st_alloc_reachable r l st_alloc_assign]
  show ?thesis using st_alloc_reachable r l st_alloc_assign st_dangling_facts(1) by simp
qed

text \<open>
  C5. If \<open>push\<close> raises, the state is the one before the call except for the allocation
  counter: the new node is released, the queue holds the same tree and has the same size.
  If \<open>A.merge(B)\<close> on distinct queues raises, the state is the one before the call.
\<close>

theorem mutation_strong_guarantee:
  "(alloc_ok s \<and> holds s q t \<and> push s q e = Some (Inl err, s') \<longrightarrow>
      err = comparator_failure
      \<and> s' = s\<lparr>next_node := next_node s + 1\<rparr> \<and> nodes s' (next_node s) = None
      \<and> holds s' q t \<and> size_pq s' q = size_pq s q)
   \<and> (q \<noteq> p \<and> holds s q tA \<and> holds s p tB \<and> distinct (addrs tA @ addrs tB)
        \<and> merge_pq s q p = Some (Inl err, s') \<longrightarrow> err = comparator_failure \<and> s' = s)"
proof (rule conjI; rule impI)
  assume a: "alloc_ok s \<and> holds s q t \<and> push s q e = Some (Inl err, s')"
  then have al: "alloc_ok s" and ho: "holds s q t" and pu: "push s q e = Some (Inl err, s')"
    by simp_all
  from push_steps [OF al ho, of e] pu
  have s': "s' = s\<lparr>next_node := next_node s + 1\<rparr>" and e: "err = comparator_failure"
    by (auto split: option.splits)
  have "holds s' q t" unfolding s' by (rule holds_frame [OF ho]) simp_all
  moreover have "nodes s' (next_node s) = None" using al by (simp add: s' alloc_ok_def alloc_free_def)
  moreover have "size_pq s' q = size_pq s q" by (simp add: s' size_pq_def)
  ultimately show "err = comparator_failure
      \<and> s' = s\<lparr>next_node := next_node s + 1\<rparr> \<and> nodes s' (next_node s) = None
      \<and> holds s' q t \<and> size_pq s' q = size_pq s q" using s' e by simp
next
  assume a: "q \<noteq> p \<and> holds s q tA \<and> holds s p tB \<and> distinct (addrs tA @ addrs tB)
        \<and> merge_pq s q p = Some (Inl err, s')"
  then have ne: "q \<noteq> p" and h1: "holds s q tA" and h2: "holds s p tB"
    and d: "distinct (addrs tA @ addrs tB)" and m: "merge_pq s q p = Some (Inl err, s')"
    by simp_all
  from merge_pq_steps [OF ne h1 h2 d] m show "err = comparator_failure \<and> s' = s"
    by (auto split: option.splits)
qed

theorem mutation_strong_guarantee_witness:
  "alloc_ok st_throw \<and> holds st_throw 1 (Br Tip 3 3 1 Tip)
   \<and> push st_throw 1 4 = Some (Inl comparator_failure, st_throw\<lparr>next_node := 6\<rparr>)
   \<and> nodes (st_throw\<lparr>next_node := 6\<rparr>) 5 = None
   \<and> holds (st_throw\<lparr>next_node := 6\<rparr>) 1 (Br Tip 3 3 1 Tip)
   \<and> size_pq (st_throw\<lparr>next_node := 6\<rparr>) 1 = size_pq st_throw 1
   \<and> (1::nat) \<noteq> 2 \<and> holds st_throw 2 (Br Tip 4 4 1 Tip)
   \<and> distinct (addrs (Br Tip (3::nat) (3::int) 1 Tip) @ addrs (Br Tip (4::nat) (4::int) 1 Tip))
   \<and> merge_pq st_throw 1 2 = Some (Inl comparator_failure, st_throw)"
proof -
  have h1: "holds st_throw 1 (Br Tip 3 3 1 Tip)" and h2: "holds st_throw 2 (Br Tip 4 4 1 Tip)"
    by (simp_all add: holds_def st_throw_def)
  have n: "next_node st_throw = 5" by (simp add: st_throw_def)
  have d: "distinct (addrs (Br Tip (3::nat) (3::int) 1 Tip) @ addrs (Br Tip (4::nat) (4::int) 1 Tip))"
    by simp
  from mutation_strong_guarantee [of st_throw 1 "Br Tip 3 3 1 Tip" 4 comparator_failure
      "st_throw\<lparr>next_node := 6\<rparr>"]
    st_throw_alloc_ok h1 st_throw_push n
  have A: "nodes (st_throw\<lparr>next_node := 6\<rparr>) 5 = None
     \<and> holds (st_throw\<lparr>next_node := 6\<rparr>) 1 (Br Tip 3 3 1 Tip)
     \<and> size_pq (st_throw\<lparr>next_node := 6\<rparr>) 1 = size_pq st_throw 1" by simp
  from mutation_strong_guarantee [where s = st_throw and q = 1 and err = comparator_failure
      and s' = st_throw and p = 2 and tA = "Br Tip 3 3 1 Tip" and tB = "Br Tip 4 4 1 Tip"]
    h1 h2 d st_throw_merge
  have B: "st_throw = st_throw" by simp
  show ?thesis using A B st_throw_alloc_ok h1 h2 d st_throw_push st_throw_merge by simp
qed

text \<open>
  C6. For a queue with \<open>size() == 0\<close>, \<open>top()\<close> and \<open>pop()\<close> raise \<open>container_is_empty\<close>, they
  raise it only when \<open>size() == 0\<close>, and the call leaves the state unchanged (\<open>top\<close> is a
  \<open>const\<close> member and returns no state; \<open>pop\<close> returns the state it was given).
\<close>

theorem empty_raises:
  assumes "queues s q \<noteq> None"
  shows "(top s q = Inl container_is_empty \<longleftrightarrow> size_pq s q = Inr 0)
       \<and> (pop s q = Some (Inl container_is_empty, s') \<longleftrightarrow> size_pq s q = Inr 0 \<and> s' = s)"
proof -
  from assms obtain Q where Q: "queues s q = Some Q" by auto
  have t: "top s q = Inl container_is_empty \<longleftrightarrow> size_pq s q = Inr 0"
    using Q by (cases "sz Q = 0") (auto simp: top_def empty_def size_pq_def split: option.splits)
  have p1: "pop s q = Some (Inl container_is_empty, s)" if "sz Q = 0"
    using Q that by (simp add: pop_def empty_def)
  have p2: "sz Q = 0" if p: "pop s q = Some (Inl container_is_empty, s')"
  proof (rule ccontr)
    assume nz: "sz Q \<noteq> 0"
    show False
    proof (cases "root Q")
      case None
      then show ?thesis using p Q nz by (simp add: pop_def empty_def)
    next
      case (Some a)
      show ?thesis
      proof (cases "nodes s a")
        case None
        then show ?thesis using p Q nz Some by (simp add: pop_def empty_def)
      next
        case n: (Some n)
        from p Q nz Some n obtain res h' where
          m: "merge (comp Q) (nodes s) (left n) (right n) = Some (res, h')"
          and r: "(case res of Inl err \<Rightarrow> Some (Inl err, s\<lparr>nodes := h'\<rparr>)
           | Inr m \<Rightarrow>
          (case delete_node h' a of
             Inl e' \<Rightarrow> Some (Inl e', s\<lparr>nodes := h', queues := (queues s)(q \<mapsto> Q\<lparr>root := m\<rparr>)\<rparr>)
           | Inr h'' \<Rightarrow>
               Some (Inr (), s\<lparr>nodes := h'', queues := (queues s)(q \<mapsto> Q\<lparr>root := m, sz := sz Q - 1\<rparr>)\<rparr>)))
            = Some (Inl container_is_empty, s')"
          by (auto simp: pop_def empty_def bind_eq_Some_conv)
        from merge_not_empty_error [OF m] r show False
          by (auto split: sum.splits simp: delete_node_def split: option.splits)
      qed
    qed
  qed
  have "pop s q = Some (Inl container_is_empty, s') \<longleftrightarrow> size_pq s q = Inr 0 \<and> s' = s"
    using p1 p2 Q by (auto simp: size_pq_def)
  with t show ?thesis by simp
qed

theorem empty_raises_witness:
  "queues st_empty 0 \<noteq> None \<and> size_pq st_empty 0 = Inr 0
   \<and> top st_empty 0 = Inl container_is_empty
   \<and> pop st_empty 0 = Some (Inl container_is_empty, st_empty)"
proof -
  have q: "queues st_empty 0 \<noteq> None"
    by (simp add: st_empty_def construct_def init_state_def)
  have z: "size_pq st_empty 0 = Inr 0" using st_empty_facts(2) by (simp add: size_holds)
  from empty_raises [OF q, of st_empty] q z show ?thesis by simp
qed

text \<open>
  C7. The self-merge \<open>q.merge(q)\<close> returns normally and leaves the whole state, hence size,
  held elements and drain order of \<open>q\<close>, as it was.
\<close>

theorem self_merge_noop: "merge_pq s q q = Some (Inr (), s)"
  by (simp add: merge_pq_def)

text \<open>
  C8. Copy construction returns normally and the new queue holds a tree of the same shape
  (data, children and stored \<open>npl\<close> at every node) at addresses disjoint from the
  original's; both queues have the original's size and drain to the same list; and after
  any sequence of \<open>push\<close> and \<open>pop\<close> calls on the copy the original still holds its tree,
  with the same size and the same drain order.
\<close>

theorem copy_is_deep:
  assumes "alloc_ok s" and "holds s p t" and "queues s q = None"
  shows "\<exists>s' t'. copy_construct s q p = Some (Inr (), s')
           \<and> holds s' q t' \<and> holds s' p t
           \<and> shape t' = shape t \<and> set (addrs t') \<inter> set (addrs t) = {}
           \<and> size_pq s' q = size_pq s p
           \<and> map_option fst (drain s' q) = map_option fst (drain s p)
           \<and> map_option fst (drain s' p) = map_option fst (drain s p)
           \<and> (\<forall>ms. \<exists>s''. run_ops s' q ms = Some s'' \<and> holds s'' p t
                  \<and> size_pq s'' p = size_pq s p
                  \<and> map_option fst (drain s'' p) = map_option fst (drain s p))"
proof -
  let ?t' = "relabel (next_node s) t"
  from copy_construct_steps [OF assms] obtain s' where s':
    "copy_construct s q p = Some (Inr (), s')" "holds s' q ?t'" "holds s' p t" "alloc_ok s'"
    "cmp_of s' q = cmp_of s p" "\<forall>q'. q' \<noteq> q \<longrightarrow> queues s' q' = queues s q'" by blast
  have ne: "q \<noteq> p" using assms(2,3) by (auto simp: holds_def)
  have cp: "cmp_of s' p = cmp_of s p" using s'(6) ne by (simp add: cmp_of_def)
  have dj: "set (addrs ?t') \<inter> set (addrs t) = {}"
    using holds_below [OF assms(1,2)] by (fastforce simp: addrs_relabel)
  have dq: "map_option fst (drain s' q) = map_option fst (drain s p)"
    using drainT_shape [of "cmp_of s p" ?t'] drainT_shape [of "cmp_of s p" t]
    by (simp add: drain_result [OF s'(2)] drain_result [OF assms(2)] s'(5))
  have dp: "map_option fst (drain s' p) = map_option fst (drain s p)"
    by (simp add: drain_result [OF s'(3)] drain_result [OF assms(2)] cp)
  have iso: "\<exists>s''. run_ops s' q ms = Some s'' \<and> holds s'' p t
                  \<and> size_pq s'' p = size_pq s p
                  \<and> map_option fst (drain s'' p) = map_option fst (drain s p)" for ms
  proof -
    from run_ops_frame [OF s'(4,2,3) ne dj, of ms] obtain s'' where s'':
      "run_ops s' q ms = Some s''" "holds s'' p t" "cmp_of s'' p = cmp_of s' p" by blast
    have "map_option fst (drain s'' p) = map_option fst (drain s p)"
      by (simp add: drain_result [OF s''(2)] drain_result [OF assms(2)] s''(3) cp)
    then show ?thesis using s'' size_holds [OF s''(2)] size_holds [OF assms(2)] by simp
  qed
  show ?thesis
    using s'(1,2,3) dj dq dp iso size_holds [OF s'(2)] size_holds [OF assms(2)]
    by (intro exI [of _ s'] exI [of _ ?t']) simp
qed

theorem copy_is_deep_witness:
  "alloc_ok st_two \<and> holds st_two 0 tree_153 \<and> queues st_two 2 = None
   \<and> (\<exists>s' t'. copy_construct st_two 2 0 = Some (Inr (), s')
           \<and> holds s' 2 t' \<and> holds s' 0 tree_153
           \<and> shape t' = shape tree_153 \<and> set (addrs t') \<inter> set (addrs tree_153) = {}
           \<and> size_pq s' 2 = size_pq st_two 0
           \<and> map_option fst (drain s' 2) = map_option fst (drain st_two 0)
           \<and> map_option fst (drain s' 0) = map_option fst (drain st_two 0)
           \<and> (\<forall>ms. \<exists>s''. run_ops s' 2 ms = Some s'' \<and> holds s'' 0 tree_153
                  \<and> size_pq s'' 0 = size_pq st_two 0
                  \<and> map_option fst (drain s'' 0) = map_option fst (drain st_two 0)))"
  using copy_is_deep [OF st_two_facts(1,2) st_two_fresh] st_two_facts(1,2) st_two_fresh by blast

text \<open>
  C9. The self-assignment \<open>q = q\<close> returns normally and leaves the whole state as it was: the
  identity test comes before \<open>clear(root)\<close>.
\<close>

theorem self_assign_noop: "assign s q q = Some (Inr (), s)"
  by (simp add: assign_def)

text \<open>
  C10. \<open>pop()\<close> on a non-empty queue gives the strong guarantee: when the comparator throws
  while the two children of the root are merged, \<open>pop\<close> raises that failure and the state
  is the one before the call (root not reassigned, old root not deleted, \<open>sz\<close> not
  decremented); and whatever error \<open>pop\<close> raises on such a queue, the state is unchanged.
\<close>

theorem pop_throw_unchanged:
  assumes "holds s q (Br l a x k r)"
  shows "(mergeT (cmp_of s q) l r = None \<longrightarrow> pop s q = Some (Inl comparator_failure, s))
       \<and> (pop s q = Some (Inl err, s') \<longrightarrow>
            err = comparator_failure \<and> s' = s \<and> holds s' q (Br l a x k r))"
  using pop_steps [OF assms] assms by (auto split: option.splits)

theorem pop_throw_unchanged_witness:
  "holds st_throw 0 (Br (Br Tip 1 3 1 Tip) 0 5 2 (Br Tip 2 4 1 Tip))
   \<and> mergeT (cmp_of st_throw 0) (Br Tip 1 3 1 Tip) (Br Tip (2::nat) 4 1 Tip) = None
   \<and> pop st_throw 0 = Some (Inl comparator_failure, st_throw)"
proof -
  have h: "holds st_throw 0 (Br (Br Tip 1 3 1 Tip) 0 5 2 (Br Tip 2 4 1 Tip))"
    by (simp add: holds_def st_throw_def)
  have m: "mergeT (cmp_of st_throw 0) (Br Tip 1 3 1 Tip) (Br Tip (2::nat) 4 1 Tip) = None"
    by (simp add: cmp_of_def st_throw_def less_int_throw34_def)
  from pop_throw_unchanged [OF h, of comparator_failure st_throw] h m show ?thesis by simp
qed

end
